theory Spec2Isabelle
  imports Complex_Main "HOL-Library.Multiset"
begin

section \<open>Time-dependent A* route search with periodic traffic signals\<close>

text \<open>
  A shallow embedding of \<^verbatim>\<open>traffic_light.py\<close>, \<^verbatim>\<open>road_network.py\<close> and
  \<^verbatim>\<open>astar.py\<close>. Python's \<^verbatim>\<open>float\<close> values (seconds, metres, degrees) are read as
  exact real numbers: no rounding, no NaN; the one infinite value the program uses,
  \<^verbatim>\<open>float('inf')\<close>, is a constructor of its own in the type \<open>cost\<close> below.
  Exceptions are values of \<open>py_error\<close>, returned on the left of a sum.
\<close>

datatype py_error = ZeroDivisionError | NetworkXError | KeyError

subsection \<open>traffic\_light.py\<close>

text \<open>The dataclass \<^verbatim>\<open>TrafficLight\<close>; \<^verbatim>\<open>current_phase\<close> is a Python string.\<close>

record TrafficLight =
  light_node_id :: int
  cycle_time :: real
  green_time :: real
  red_time :: real
  current_phase :: string
  phase_start_time :: real

text \<open>\<^verbatim>\<open>TrafficLightPredictor\<close>: its only attribute is the dictionary of signals,
  keyed by the directed edge.\<close>

record TrafficLightPredictor =
  traffic_lights :: "(int \<times> int) \<rightharpoonup> TrafficLight"

definition init_predictor :: TrafficLightPredictor where
  "init_predictor = \<lparr>traffic_lights = Map.empty\<rparr>"

text \<open>
  \<^verbatim>\<open>add_traffic_light\<close> draws two random numbers; they are arguments here: \<open>u1\<close> is the
  value of \<^verbatim>\<open>random.random()\<close> and \<open>u2\<close> the one behind
  \<^verbatim>\<open>random.uniform(0, cycle_time)\<close>, which is \<^verbatim>\<open>0 + (cycle_time - 0) * random()\<close>.
\<close>

definition add_traffic_light ::
  "TrafficLightPredictor \<Rightarrow> int \<Rightarrow> int \<Rightarrow> real \<Rightarrow> real \<Rightarrow> real \<Rightarrow> real \<Rightarrow> TrafficLightPredictor" where
  "add_traffic_light p from_node to_node cycle green_ratio u1 u2 =
     (let green = cycle * green_ratio;
          red = cycle * (1 - green_ratio);
          initial_phase = (if u1 < green_ratio then ''green'' else ''red'');
          start = 0 + (cycle - 0) * u2
      in p\<lparr>traffic_lights := (traffic_lights p)((from_node, to_node) \<mapsto>
            \<lparr>light_node_id = from_node, cycle_time = cycle, green_time = green,
             red_time = red, current_phase = initial_phase, phase_start_time = start\<rparr>)\<rparr>)"

text \<open>Python's \<^verbatim>\<open>a % b\<close> on floats: the result has the sign of \<open>b\<close>; a zero divisor
  raises \<^verbatim>\<open>ZeroDivisionError\<close>.\<close>

definition py_mod :: "real \<Rightarrow> real \<Rightarrow> py_error + real" where
  "py_mod a b = (if b = 0 then Inl ZeroDivisionError else Inr (a - b * of_int \<lfloor>a / b\<rfloor>))"

definition get_wait_time ::
  "TrafficLightPredictor \<Rightarrow> int \<Rightarrow> int \<Rightarrow> real \<Rightarrow> py_error + real" where
  "get_wait_time p from_node to_node current_time =
     (case traffic_lights p (from_node, to_node) of
        None \<Rightarrow> Inr 0
      | Some traffic_light \<Rightarrow>
          (case py_mod (current_time - phase_start_time traffic_light) (cycle_time traffic_light) of
             Inl e \<Rightarrow> Inl e
           | Inr cycle_position \<Rightarrow>
               if current_phase traffic_light = ''green'' then
                 if cycle_position < green_time traffic_light then
                   (let remaining_green = green_time traffic_light - cycle_position
                    in if remaining_green > 5 then Inr 0 else Inr (red_time traffic_light))
                 else Inr (cycle_time traffic_light - cycle_position)
               else
                 if cycle_position < red_time traffic_light then
                   Inr (red_time traffic_light - cycle_position)
                 else Inr 0))"

text \<open>The invariant of a registered signal (section 3 of the specification): a positive
  cycle, a green duration within it, and the red duration the rest of the cycle.\<close>

definition light_ok :: "TrafficLight \<Rightarrow> bool" where
  "light_ok l \<longleftrightarrow> 0 < cycle_time l \<and> 0 \<le> green_time l \<and> green_time l \<le> cycle_time l
     \<and> red_time l = cycle_time l - green_time l"

definition lights_ok :: "TrafficLightPredictor \<Rightarrow> bool" where
  "lights_ok p \<longleftrightarrow> (\<forall>l \<in> ran (traffic_lights p). light_ok l)"

text \<open>The position in the cycle that \<^verbatim>\<open>get_wait_time\<close> computes, for stating where in
  the cycle a query falls.\<close>

definition cycle_position_of :: "TrafficLight \<Rightarrow> real \<Rightarrow> real" where
  "cycle_position_of l t =
     (t - phase_start_time l) - cycle_time l * of_int \<lfloor>(t - phase_start_time l) / cycle_time l\<rfloor>"

definition example_light :: TrafficLight where
  "example_light = \<lparr>light_node_id = 1, cycle_time = 120, green_time = 60, red_time = 60,
     current_phase = ''red'', phase_start_time = 0\<rparr>"


definition example_predictor :: TrafficLightPredictor where
  "example_predictor = \<lparr>traffic_lights = [(1, 2) \<mapsto> example_light]\<rparr>"


subsection \<open>road\_network.py\<close>

text \<open>
  The dataclass \<^verbatim>\<open>Node\<close> and the attributes of \<^verbatim>\<open>RoadNetwork\<close>. The two dictionaries
  are association lists in insertion order (\<^verbatim>\<open>get_neighbors\<close> iterates over the keys of
  \<^verbatim>\<open>edges\<close>); a lookup takes the first entry of a key. Of the networkx graph only
  \<^verbatim>\<open>neighbors\<close> is used: the graph is the list of the successors of each of its nodes,
  and asking for a node that it does not have raises \<^verbatim>\<open>NetworkXError\<close>.
\<close>

record Node =
  node_id :: int
  lat :: real
  lon :: real
  name :: "string option"

record RoadNetwork =
  graph :: "(int \<times> int list) list option"
  nodes :: "(int \<times> Node) list"
  edges :: "((int \<times> int) \<times> real) list"

definition get_node :: "RoadNetwork \<Rightarrow> int \<Rightarrow> Node option" where
  "get_node net n = map_of (nodes net) n"

definition has_node :: "RoadNetwork \<Rightarrow> int \<Rightarrow> bool" where
  "has_node net n \<longleftrightarrow> n \<in> fst ` set (nodes net)"

definition get_neighbors :: "RoadNetwork \<Rightarrow> int \<Rightarrow> py_error + int list" where
  "get_neighbors net n =
     (case graph net of
        Some adj \<Rightarrow> (case map_of adj n of None \<Rightarrow> Inl NetworkXError | Some succs \<Rightarrow> Inr succs)
      | None \<Rightarrow> Inr (map snd (filter (\<lambda>k. fst k = n) (map fst (edges net)))))"

definition get_edge_distance :: "RoadNetwork \<Rightarrow> int \<Rightarrow> int \<Rightarrow> real option" where
  "get_edge_distance net from_node_id to_node_id = map_of (edges net) (from_node_id, to_node_id)"

subsection \<open>astar.py\<close>

text \<open>A float that may be \<^verbatim>\<open>float('inf')\<close>, with the addition and the comparison
  that the program uses on it.\<close>

datatype cost = Fin real | Infinity

fun cost_add :: "real \<Rightarrow> cost \<Rightarrow> cost" where
  "cost_add a (Fin b) = Fin (a + b)"
| "cost_add a Infinity = Infinity"

fun cost_less :: "cost \<Rightarrow> cost \<Rightarrow> bool" where
  "cost_less (Fin a) (Fin b) \<longleftrightarrow> a < b"
| "cost_less (Fin a) Infinity \<longleftrightarrow> True"
| "cost_less Infinity c \<longleftrightarrow> False"

text \<open>The dataclass \<^verbatim>\<open>PathNode\<close>; \<^verbatim>\<open>g_cost\<close> is always finite, \<^verbatim>\<open>h_cost\<close> is
  infinite for a node without coordinates.\<close>

datatype PathNode =
  PathNode (path_node_id: int) (g_cost: real) (h_cost: cost) (parent: "PathNode option")

definition f_cost :: "PathNode \<Rightarrow> cost" where
  "f_cost pn = cost_add (g_cost pn) (h_cost pn)"

definition path_node_lt :: "PathNode \<Rightarrow> PathNode \<Rightarrow> bool" where
  "path_node_lt a b \<longleftrightarrow> cost_less (f_cost a) (f_cost b)"

text \<open>
  The heap of \<^verbatim>\<open>heapq\<close>, Python's standard library: a list, with \<^verbatim>\<open>_siftdown\<close> and
  \<^verbatim>\<open>_siftup\<close> as in the library's source, comparing entries by \<^verbatim>\<open>PathNode.__lt__\<close>.
  The indices that the library passes are within the list; \<^verbatim>\<open>heappop\<close> is only called
  under the guard \<^verbatim>\<open>while open_list\<close>, on a non-empty heap.
\<close>

function siftdown_loop :: "PathNode list \<Rightarrow> nat \<Rightarrow> nat \<Rightarrow> PathNode \<Rightarrow> PathNode list" where
  "siftdown_loop heap startpos pos newitem =
     (if pos > startpos then
        (let parentpos = (pos - 1) div 2;
             parent = heap ! parentpos
         in if path_node_lt newitem parent
            then siftdown_loop (heap[pos := parent]) startpos parentpos newitem
            else heap[pos := newitem])
      else heap[pos := newitem])"
  by pat_completeness auto
termination
  by (relation "measure (\<lambda>(heap, startpos, pos, newitem). pos)") auto

declare siftdown_loop.simps [simp del]

definition siftdown :: "PathNode list \<Rightarrow> nat \<Rightarrow> nat \<Rightarrow> PathNode list" where
  "siftdown heap startpos pos = siftdown_loop heap startpos pos (heap ! pos)"

function siftup_loop :: "PathNode list \<Rightarrow> nat \<Rightarrow> PathNode list \<times> nat" where
  "siftup_loop heap pos =
     (let endpos = length heap;
          childpos = 2 * pos + 1
      in if childpos < endpos then
           (let rightpos = childpos + 1;
                childpos = (if rightpos < endpos
                               \<and> \<not> path_node_lt (heap ! childpos) (heap ! rightpos)
                            then rightpos else childpos)
            in siftup_loop (heap[pos := heap ! childpos]) childpos)
         else (heap, pos))"
  by pat_completeness auto
termination
  by (relation "measure (\<lambda>(heap, pos). length heap - pos)") (auto simp: Let_def)

declare siftup_loop.simps [simp del]

definition siftup :: "PathNode list \<Rightarrow> nat \<Rightarrow> PathNode list" where
  "siftup heap pos =
     (let startpos = pos;
          newitem = heap ! pos;
          (heap', pos') = siftup_loop heap pos
      in siftdown (heap'[pos' := newitem]) startpos pos')"

definition heappush :: "PathNode list \<Rightarrow> PathNode \<Rightarrow> PathNode list" where
  "heappush heap item = (let heap' = heap @ [item] in siftdown heap' 0 (length heap' - 1))"

definition heappop :: "PathNode list \<Rightarrow> PathNode \<times> PathNode list" where
  "heappop heap =
     (let lastelt = last heap;
          heap' = butlast heap
      in if heap' \<noteq> [] then
           (let returnitem = heap' ! 0
            in (returnitem, siftup (heap'[0 := lastelt]) 0))
         else (lastelt, heap'))"

record AStarPathfinder =
  road_network :: RoadNetwork
  traffic_predictor :: TrafficLightPredictor

definition heuristic :: "AStarPathfinder \<Rightarrow> int \<Rightarrow> int \<Rightarrow> cost" where
  "heuristic pf node1_id node2_id =
     (case (get_node (road_network pf) node1_id, get_node (road_network pf) node2_id) of
        (Some node1, Some node2) \<Rightarrow>
          (let lat_diff = lat node1 - lat node2;
               lon_diff = lon node1 - lon node2;
               distance = sqrt (lat_diff ^ 2 + lon_diff ^ 2)
           in Fin (distance * 111000))
      | _ \<Rightarrow> Infinity)"

text \<open>The assumed travel speed in metres per second, the literal \<^verbatim>\<open>13.89\<close> of
  \<^verbatim>\<open>get_edge_cost\<close> and of the clock update in \<^verbatim>\<open>find_path\<close>.\<close>

definition average_speed :: real where
  "average_speed = 13.89"

definition get_edge_cost :: "AStarPathfinder \<Rightarrow> int \<Rightarrow> int \<Rightarrow> real \<Rightarrow> py_error + cost" where
  "get_edge_cost pf from_node_id to_node_id current_time =
     (case get_edge_distance (road_network pf) from_node_id to_node_id of
        None \<Rightarrow> Inr Infinity
      | Some distance \<Rightarrow>
          (case get_wait_time (traffic_predictor pf) from_node_id to_node_id current_time of
             Inl e \<Rightarrow> Inl e
           | Inr wait_time \<Rightarrow>
               (let wait_distance = wait_time * average_speed
                in Inr (Fin (distance + wait_distance)))))"

text \<open>The statistics dictionary, with its keys in the order of the literal. \<^verbatim>\<open>d[k] += v\<close>
  raises \<^verbatim>\<open>KeyError\<close> on a missing key.\<close>

type_synonym stats_dict = "(string \<times> real) list"

fun dict_add :: "string \<Rightarrow> real \<Rightarrow> stats_dict \<Rightarrow> py_error + stats_dict" where
  "dict_add k v [] = Inl KeyError"
| "dict_add k v (e # d) =
     (if fst e = k then Inr ((k, snd e + v) # d)
      else (case dict_add k v d of Inl err \<Rightarrow> Inl err | Inr d' \<Rightarrow> Inr (e # d')))"

definition init_stats :: stats_dict where
  "init_stats = [(''nodes_explored'', 0), (''traffic_lights_encountered'', 0),
     (''total_wait_time'', 0)]"

text \<open>
  The local variables of \<^verbatim>\<open>find_path\<close> that the loop changes. The last field is a
  history variable, not a variable of the program: it lists, in order, each edge for which
  the loop body reached the clock update, with the clock value at which the edge was priced
  and the edge cost computed there. No branch reads it.
\<close>

record search_state =
  open_list :: "PathNode list"
  closed_set :: "int set"
  g_costs :: "int \<rightharpoonup> real"
  parents :: "int \<rightharpoonup> int"
  stats :: stats_dict
  current_time :: real
  priced :: "(int \<times> int \<times> real \<times> real) list"

text \<open>The body of \<^verbatim>\<open>for neighbor_id in neighbors\<close> for one neighbour; a
  \<^verbatim>\<open>continue\<close> returns the state as it is.\<close>

definition visit_neighbor ::
  "AStarPathfinder \<Rightarrow> int \<Rightarrow> PathNode \<Rightarrow> int \<Rightarrow> search_state \<Rightarrow> py_error + search_state" where
  "visit_neighbor pf goal_id current neighbor_id s =
     (if neighbor_id \<in> closed_set s then Inr s
      else
        (case get_edge_cost pf (path_node_id current) neighbor_id (current_time s) of
           Inl e \<Rightarrow> Inl e
         | Inr Infinity \<Rightarrow> Inr s
         | Inr (Fin edge_cost) \<Rightarrow>
             (case get_wait_time (traffic_predictor pf) (path_node_id current) neighbor_id
                     (current_time s) of
                Inl e \<Rightarrow> Inl e
              | Inr wait_time \<Rightarrow>
                  (case (if wait_time > 0
                         then (case dict_add ''traffic_lights_encountered'' 1 (stats s) of
                                 Inl e \<Rightarrow> Inl e
                               | Inr d \<Rightarrow> dict_add ''total_wait_time'' wait_time d)
                         else Inr (stats s)) of
                     Inl e \<Rightarrow> Inl e
                   | Inr stats' \<Rightarrow>
                       (case g_costs s (path_node_id current) of
                          None \<Rightarrow> Inl KeyError
                        | Some g_current \<Rightarrow>
                            (let tentative_g_cost = g_current + edge_cost;
                                 better = (case g_costs s neighbor_id of
                                             None \<Rightarrow> True
                                           | Some g_old \<Rightarrow> tentative_g_cost < g_old);
                                 s1 = (if better then
                                         s\<lparr>g_costs := (g_costs s)(neighbor_id \<mapsto> tentative_g_cost),
                                           parents := (parents s)(neighbor_id \<mapsto> path_node_id current),
                                           open_list := heappush (open_list s)
                                             (PathNode neighbor_id tentative_g_cost
                                                (heuristic pf neighbor_id goal_id) (Some current))\<rparr>
                                       else s);
                                 travel_time = edge_cost / average_speed
                             in Inr (s1\<lparr>stats := stats',
                                      current_time := current_time s + travel_time,
                                      priced := priced s @
                                        [(path_node_id current, neighbor_id, current_time s,
                                          edge_cost)]\<rparr>)))))))"

fun expand_neighbors ::
  "AStarPathfinder \<Rightarrow> int \<Rightarrow> PathNode \<Rightarrow> int list \<Rightarrow> search_state \<Rightarrow> py_error + search_state" where
  "expand_neighbors pf goal_id current [] s = Inr s"
| "expand_neighbors pf goal_id current (neighbor_id # rest) s =
     (case visit_neighbor pf goal_id current neighbor_id s of
        Inl e \<Rightarrow> Inl e
      | Inr s' \<Rightarrow> expand_neighbors pf goal_id current rest s')"

text \<open>Path reconstruction: \<^verbatim>\<open>while node_id is not None\<close>. The loop does not end when
  the parents form a cycle, so the result is optional.\<close>

partial_function (option) walk_back :: "(int \<rightharpoonup> int) \<Rightarrow> int option \<Rightarrow> int list \<Rightarrow> int list option" where
  "walk_back ps nid path =
     (case nid of
        None \<Rightarrow> Some path
      | Some n \<Rightarrow> walk_back ps (ps n) (path @ [n]))"

text \<open>Every node id that \<^verbatim>\<open>get_neighbors\<close> can return.\<close>

definition neighbor_ids :: "RoadNetwork \<Rightarrow> int set" where
  "neighbor_ids net =
     (case graph net of
        Some adj \<Rightarrow> \<Union> (set ` snd ` set adj)
      | None \<Rightarrow> snd ` fst ` set (edges net))"

type_synonym search_result = "int list \<times> cost \<times> stats_dict \<times> (int \<times> int \<times> real \<times> real) list"

subsection \<open>The heap keeps its entries\<close>

lemma siftdown_loop_mset:
  "pos < length heap \<Longrightarrow>
   mset (siftdown_loop heap startpos pos newitem) = mset (heap[pos := newitem])"
proof (induction heap startpos pos newitem rule: siftdown_loop.induct)
  case (1 heap startpos pos newitem)
  show ?case
  proof (cases "startpos < pos \<and> path_node_lt newitem (heap ! ((pos - 1) div 2))")
    case True
    let ?pp = "(pos - 1) div 2"
    from True have pp: "?pp < pos" by arith
    with "1.prems" have ppl: "?pp < length heap" by simp
    have "mset (siftdown_loop (heap[pos := heap ! ?pp]) startpos ?pp newitem)
          = mset (heap[pos := heap ! ?pp, ?pp := newitem])"
      using "1.IH" [of ?pp "heap ! ?pp"] True ppl by simp
    also have "\<dots> = mset (heap[pos := newitem])"
      using pp ppl "1.prems"
      by (simp add: mset_update nth_list_update)
    finally show ?thesis using True
      by (subst siftdown_loop.simps) (simp add: Let_def)
  next
    case False
    then show ?thesis
      by (subst siftdown_loop.simps) (auto simp: Let_def)
  qed
qed

lemma siftdown_mset: "pos < length heap \<Longrightarrow> mset (siftdown heap startpos pos) = mset heap"
  by (simp add: siftdown_def siftdown_loop_mset)

lemma siftup_loop_mset:
  "pos < length heap \<Longrightarrow> siftup_loop heap pos = (heap', pos') \<Longrightarrow>
   pos' < length heap' \<and> mset (heap'[pos' := x]) = mset (heap[pos := x])"
proof (induction heap pos arbitrary: heap' pos' rule: siftup_loop.induct)
  case (1 heap pos)
  show ?case
  proof (cases "2 * pos + 1 < length heap")
    case True
    define c where "c = (if 2 * pos + 1 + 1 < length heap
        \<and> \<not> path_node_lt (heap ! (2 * pos + 1)) (heap ! (2 * pos + 1 + 1))
      then 2 * pos + 1 + 1 else 2 * pos + 1)"
    have c: "c < length heap" "pos < c" using True by (auto simp: c_def)
    have step: "siftup_loop heap pos = siftup_loop (heap[pos := heap ! c]) c"
      using True by (subst siftup_loop.simps) (simp add: Let_def c_def)
    with "1.prems"(2) have r: "siftup_loop (heap[pos := heap ! c]) c = (heap', pos')" by simp
    have "pos' < length heap' \<and> mset (heap'[pos' := x]) = mset (heap[pos := heap ! c, c := x])"
      using "1.IH" [OF refl refl True refl, of "c" heap' pos'] r c
      by (simp add: c_def)
    moreover have "mset (heap[pos := heap ! c, c := x]) = mset (heap[pos := x])"
      using c "1.prems"(1) by (simp add: mset_update nth_list_update)
    ultimately show ?thesis by simp
  next
    case False
    then have "siftup_loop heap pos = (heap, pos)"
      by (subst siftup_loop.simps) (simp add: Let_def)
    with "1.prems" show ?thesis by auto
  qed
qed

lemma siftup_mset:
  assumes "pos < length heap"
  shows "mset (siftup heap pos) = mset heap"
proof -
  obtain heap' pos' where r: "siftup_loop heap pos = (heap', pos')" by (cases "siftup_loop heap pos")
  from siftup_loop_mset [OF assms r, of "heap ! pos"]
  have p: "pos' < length heap'" and m: "mset (heap'[pos' := heap ! pos]) = mset heap" by simp_all
  have "siftup heap pos = siftdown (heap'[pos' := heap ! pos]) pos pos'"
    by (simp add: siftup_def r)
  then show ?thesis using p m by (simp add: siftdown_mset)
qed

lemma heappush_mset: "mset (heappush heap item) = add_mset item (mset heap)"
  by (simp add: heappush_def Let_def siftdown_mset)

lemma heappop_mset:
  assumes "heap \<noteq> []" and "heappop heap = (x, rest)"
  shows "mset heap = add_mset x (mset rest)"
proof -
  from assms(1) obtain h l where h: "heap = h @ [l]" by (cases heap rule: rev_cases) auto
  show ?thesis
  proof (cases "h = []")
    case True
    with h assms(2) show ?thesis by (simp add: heappop_def)
  next
    case False
    then have l0: "0 < length h" by simp
    from assms(2) h False have x: "x = h ! 0" and r: "rest = siftup (h[0 := l]) 0"
      by (simp_all add: heappop_def)
    have "mset rest = mset (h[0 := l])" using r l0 by (simp add: siftup_mset)
    also have "\<dots> = add_mset l (mset h - {#h ! 0#})" using l0 by (simp add: mset_update)
    finally show ?thesis using h x l0 by simp
  qed
qed

subsection \<open>One expansion\<close>

text \<open>What one pass through the loop body can do, as a case rule.\<close>

lemma visit_neighbor_cases [consumes 1, case_names closed no_edge relax keep]:
  assumes "visit_neighbor pf goal_id current n s = Inr s'"
  obtains
    (closed) "n \<in> closed_set s" "s' = s"
  | (no_edge) "n \<notin> closed_set s"
      "get_edge_distance (road_network pf) (path_node_id current) n = None" "s' = s"
  | (relax) d w st g where "n \<notin> closed_set s"
      "get_edge_distance (road_network pf) (path_node_id current) n = Some d"
      "get_wait_time (traffic_predictor pf) (path_node_id current) n (current_time s) = Inr w"
      "g_costs s (path_node_id current) = Some g"
      "\<forall>g_old. g_costs s n = Some g_old \<longrightarrow> g + (d + w * average_speed) < g_old"
      "s' = s\<lparr>g_costs := (g_costs s)(n \<mapsto> g + (d + w * average_speed)),
              parents := (parents s)(n \<mapsto> path_node_id current),
              open_list := heappush (open_list s)
                (PathNode n (g + (d + w * average_speed)) (heuristic pf n goal_id) (Some current)),
              stats := st,
              current_time := current_time s + (d + w * average_speed) / average_speed,
              priced := priced s @ [(path_node_id current, n, current_time s, d + w * average_speed)]\<rparr>"
      "(if w > 0
        then (case dict_add ''traffic_lights_encountered'' 1 (stats s) of
                Inl e \<Rightarrow> Inl e
              | Inr d \<Rightarrow> dict_add ''total_wait_time'' w d)
        else Inr (stats s)) = Inr st"
  | (keep) d w st g g_old where "n \<notin> closed_set s"
      "get_edge_distance (road_network pf) (path_node_id current) n = Some d"
      "get_wait_time (traffic_predictor pf) (path_node_id current) n (current_time s) = Inr w"
      "g_costs s (path_node_id current) = Some g"
      "g_costs s n = Some g_old" "\<not> g + (d + w * average_speed) < g_old"
      "s' = s\<lparr>stats := st,
              current_time := current_time s + (d + w * average_speed) / average_speed,
              priced := priced s @ [(path_node_id current, n, current_time s, d + w * average_speed)]\<rparr>"
      "(if w > 0
        then (case dict_add ''traffic_lights_encountered'' 1 (stats s) of
                Inl e \<Rightarrow> Inl e
              | Inr d \<Rightarrow> dict_add ''total_wait_time'' w d)
        else Inr (stats s)) = Inr st"
proof (cases "n \<in> closed_set s")
  case True
  with assms have "s' = s" by (simp add: visit_neighbor_def)
  with True show ?thesis by (rule closed)
next
  case nc: False
  show ?thesis
  proof (cases "get_edge_distance (road_network pf) (path_node_id current) n")
    case None
    with assms nc have "s' = s" by (simp add: visit_neighbor_def get_edge_cost_def)
    with nc None show ?thesis by (rule no_edge)
  next
    case (Some d)
    from assms nc Some obtain w where
      w: "get_wait_time (traffic_predictor pf) (path_node_id current) n (current_time s) = Inr w"
      by (auto simp: visit_neighbor_def get_edge_cost_def split: sum.splits)
    from assms nc Some w obtain g where g: "g_costs s (path_node_id current) = Some g"
      by (auto simp: visit_neighbor_def get_edge_cost_def Let_def split: sum.splits option.splits)
    from assms nc Some w g obtain st where
      st: "(if w > 0
            then (case dict_add ''traffic_lights_encountered'' 1 (stats s) of
                    Inl e \<Rightarrow> Inl e
                  | Inr d \<Rightarrow> dict_add ''total_wait_time'' w d)
            else Inr (stats s)) = Inr st"
      by (simp add: visit_neighbor_def get_edge_cost_def Let_def split: sum.splits)
    show ?thesis
    proof (cases "\<forall>g_old. g_costs s n = Some g_old \<longrightarrow> g + (d + w * average_speed) < g_old")
      case True
      then have b: "(case g_costs s n of None \<Rightarrow> True | Some g_old \<Rightarrow> g + (d + w * average_speed) < g_old)"
        by (simp split: option.splits)
      have "s' = s\<lparr>g_costs := (g_costs s)(n \<mapsto> g + (d + w * average_speed)),
              parents := (parents s)(n \<mapsto> path_node_id current),
              open_list := heappush (open_list s)
                (PathNode n (g + (d + w * average_speed)) (heuristic pf n goal_id) (Some current)),
              stats := st,
              current_time := current_time s + (d + w * average_speed) / average_speed,
              priced := priced s @ [(path_node_id current, n, current_time s, d + w * average_speed)]\<rparr>"
        using assms nc Some w g st b
        by (simp add: visit_neighbor_def get_edge_cost_def Let_def)
      with nc Some w g True show ?thesis using st by (rule relax)
    next
      case False
      then obtain g_old where o: "g_costs s n = Some g_old" "\<not> g + (d + w * average_speed) < g_old"
        by auto
      have "s' = s\<lparr>stats := st,
              current_time := current_time s + (d + w * average_speed) / average_speed,
              priced := priced s @ [(path_node_id current, n, current_time s, d + w * average_speed)]\<rparr>"
        using assms nc Some w g st o
        by (simp add: visit_neighbor_def get_edge_cost_def Let_def)
      with nc Some w g o show ?thesis using st by (rule keep)
    qed
  qed
qed

lemma visit_neighbor_frame:
  assumes "visit_neighbor pf goal_id current n s = Inr s'"
  shows "closed_set s' = closed_set s
   \<and> path_node_id ` set (open_list s') \<subseteq> insert n (path_node_id ` set (open_list s))"
  using assms
proof (cases rule: visit_neighbor_cases)
  case (relax d w st g)
  have "set (heappush (open_list s)
           (PathNode n (g + (d + w * average_speed)) (heuristic pf n goal_id) (Some current)))
        = insert (PathNode n (g + (d + w * average_speed)) (heuristic pf n goal_id) (Some current))
            (set (open_list s))"
    by (metis heappush_mset set_mset_add_mset_insert set_mset_mset)
  with relax show ?thesis by auto
qed auto

lemma expand_neighbors_frame:
  "expand_neighbors pf goal_id current ns s = Inr s' \<Longrightarrow>
   closed_set s' = closed_set s
   \<and> path_node_id ` set (open_list s') \<subseteq> path_node_id ` set (open_list s) \<union> set ns"
proof (induction ns arbitrary: s)
  case Nil
  then show ?case by simp
next
  case (Cons n ns)
  from Cons.prems obtain s1 where
    v: "visit_neighbor pf goal_id current n s = Inr s1"
    and e: "expand_neighbors pf goal_id current ns s1 = Inr s'"
    by (auto split: sum.splits)
  from visit_neighbor_frame [OF v] have
    c1: "closed_set s1 = closed_set s"
    and o1: "path_node_id ` set (open_list s1) \<subseteq> insert n (path_node_id ` set (open_list s))"
    by simp_all
  from Cons.IH [OF e] have
    c2: "closed_set s' = closed_set s1"
    and o2: "path_node_id ` set (open_list s') \<subseteq> path_node_id ` set (open_list s1) \<union> set ns"
    by simp_all
  from o1 o2 have "path_node_id ` set (open_list s')
      \<subseteq> path_node_id ` set (open_list s) \<union> set (n # ns)"
    by (simp only: list.set) blast
  with c1 c2 show ?case by simp
qed

lemma get_neighbors_ids:
  "get_neighbors net n = Inr ns \<Longrightarrow> set ns \<subseteq> neighbor_ids net"
  by (auto simp: get_neighbors_def neighbor_ids_def split: option.splits dest!: map_of_SomeD)
    force+

lemma finite_neighbor_ids: "finite (neighbor_ids net)"
  by (auto simp: neighbor_ids_def split: option.splits)

subsection \<open>The main loop of \<^verbatim>\<open>find_path\<close>\<close>

text \<open>\<^verbatim>\<open>while open_list\<close>. Each pass removes an entry of the heap, and only a pass that
  closes a node adds entries, so the loop ends on every state.\<close>

function search_loop ::
  "AStarPathfinder \<Rightarrow> int \<Rightarrow> search_state \<Rightarrow> (py_error + search_result) option" where
  "search_loop pf goal_id s =
     (if open_list s = [] then Some (Inr ([], Infinity, stats s, priced s))
      else
        (let (current, rest) = heappop (open_list s)
         in if path_node_id current = goal_id then
              (case walk_back (parents s) (Some goal_id) [] of
                 None \<Rightarrow> None
               | Some path \<Rightarrow> Some (Inr (rev path, Fin (g_cost current), stats s, priced s)))
            else if path_node_id current \<in> closed_set s then
              search_loop pf goal_id (s\<lparr>open_list := rest\<rparr>)
            else
              (case dict_add ''nodes_explored'' 1 (stats s) of
                 Inl e \<Rightarrow> Some (Inl e)
               | Inr stats' \<Rightarrow>
                   (case get_neighbors (road_network pf) (path_node_id current) of
                      Inl e \<Rightarrow> Some (Inl e)
                    | Inr neighbors \<Rightarrow>
                        (case expand_neighbors pf goal_id current neighbors
                                (s\<lparr>open_list := rest,
                                   closed_set := insert (path_node_id current) (closed_set s),
                                   stats := stats'\<rparr>) of
                           Inl e \<Rightarrow> Some (Inl e)
                         | Inr s' \<Rightarrow> search_loop pf goal_id s')))))"
  by pat_completeness auto
termination
proof (relation "measures [\<lambda>(pf, goal_id, s). card ((path_node_id ` set (open_list s) \<union> neighbor_ids (road_network pf)) - closed_set s), \<lambda>(pf, goal_id, s). length (open_list s)]", goal_cases)
  case 1
  show ?case by simp
next
  case (2 pf goal_id s x current rest)
  then have pop: "heappop (open_list s) = (current, rest)" by simp
  from heappop_mset [OF "2"(1) pop] have m: "mset (open_list s) = add_mset current (mset rest)" .
  then have "set_mset (mset (open_list s)) = set_mset (add_mset current (mset rest))" by simp
  then have st: "set (open_list s) = insert current (set rest)" by simp
  from m have "size (mset (open_list s)) = size (add_mset current (mset rest))" by simp
  then have len: "length rest < length (open_list s)" by simp
  have "(path_node_id ` set rest \<union> neighbor_ids (road_network pf)) - closed_set s
      = (path_node_id ` set (open_list s) \<union> neighbor_ids (road_network pf)) - closed_set s"
    using st "2"(5) by auto
  with len show ?case by simp
next
  case (3 pf goal_id s x current rest stats' neighbors s')
  then have pop: "heappop (open_list s) = (current, rest)" by simp
  from heappop_mset [OF "3"(1) pop] have "mset (open_list s) = add_mset current (mset rest)" .
  then have "set_mset (mset (open_list s)) = set_mset (add_mset current (mset rest))" by simp
  then have st: "set (open_list s) = insert current (set rest)" by simp
  let ?U = "path_node_id ` set (open_list s) \<union> neighbor_ids (road_network pf)"
  let ?U' = "path_node_id ` set (open_list s') \<union> neighbor_ids (road_network pf)"
  from expand_neighbors_frame [OF "3"(8)] have
    cl: "closed_set s' = insert (path_node_id current) (closed_set s)"
    and op: "path_node_id ` set (open_list s') \<subseteq> path_node_id ` set rest \<union> set neighbors"
    by simp_all
  from get_neighbors_ids [OF "3"(7)] have nb: "set neighbors \<subseteq> neighbor_ids (road_network pf)" .
  have sub: "?U' \<subseteq> ?U" using op nb st by auto
  have cur: "path_node_id current \<in> ?U - closed_set s" using st "3"(5) by simp
  have fin: "finite (?U - closed_set s)" by (simp add: finite_neighbor_ids)
  have "?U' - closed_set s' \<subset> ?U - closed_set s" using sub cl cur by auto
  with fin have "card (?U' - closed_set s') < card (?U - closed_set s)"
    by (rule psubset_card_mono)
  then show ?case by simp
qed

declare search_loop.simps [simp del]

definition init_state :: "AStarPathfinder \<Rightarrow> int \<Rightarrow> int \<Rightarrow> real \<Rightarrow> search_state" where
  "init_state pf start_id goal_id start_time =
     \<lparr>open_list = heappush [] (PathNode start_id 0 (heuristic pf start_id goal_id) None),
      closed_set = {},
      g_costs = [start_id \<mapsto> 0],
      parents = Map.empty,
      stats = init_stats,
      current_time = start_time,
      priced = []\<rparr>"

text \<open>\<^verbatim>\<open>find_path\<close> with the history of priced edges as a fourth component of the
  result; \<open>None\<close> stands for a call that does not return.\<close>

definition find_path_traced ::
  "AStarPathfinder \<Rightarrow> int \<Rightarrow> int \<Rightarrow> real \<Rightarrow> (py_error + search_result) option" where
  "find_path_traced pf start_id goal_id start_time =
     (if start_id = goal_id then Some (Inr ([start_id], Fin 0, [], []))
      else if \<not> has_node (road_network pf) start_id \<or> \<not> has_node (road_network pf) goal_id
      then Some (Inr ([], Infinity, [], []))
      else search_loop pf goal_id (init_state pf start_id goal_id start_time))"

definition find_path ::
  "AStarPathfinder \<Rightarrow> int \<Rightarrow> int \<Rightarrow> real \<Rightarrow> (py_error + int list \<times> cost \<times> stats_dict) option" where
  "find_path pf start_id goal_id start_time =
     map_option (map_sum id (\<lambda>(path, total, st, history). (path, total, st)))
       (find_path_traced pf start_id goal_id start_time)"

subsection \<open>Example networks\<close>

definition origin :: "int \<Rightarrow> Node" where
  "origin n = \<lparr>node_id = n, lat = 0, lon = 0, name = None\<rparr>"

text \<open>Two nodes and the edge from 1 to 2 of 1000 metres (section 8 of the specification),
  without a signal and with the signal \<open>example_light\<close> on the edge.\<close>

definition two_nodes :: RoadNetwork where
  "two_nodes = \<lparr>graph = None, nodes = [(1, origin 1), (2, origin 2)], edges = [((1, 2), 1000)]\<rparr>"

definition plain_finder :: AStarPathfinder where
  "plain_finder = \<lparr>road_network = two_nodes, traffic_predictor = init_predictor\<rparr>"

definition signal_finder :: AStarPathfinder where
  "signal_finder = \<lparr>road_network = two_nodes, traffic_predictor = example_predictor\<rparr>"

text \<open>Reading a count as the application does, \<^verbatim>\<open>stats.get(key, 0)\<close>, and the
  statistics in which each of the three counts is present and zero.\<close>

definition stats_get :: "stats_dict \<Rightarrow> string \<Rightarrow> real" where
  "stats_get st k = (case map_of st k of None \<Rightarrow> 0 | Some v \<Rightarrow> v)"

definition zero_counts :: "stats_dict \<Rightarrow> bool" where
  "zero_counts st \<longleftrightarrow> map_of st ''nodes_explored'' = Some 0
     \<and> map_of st ''traffic_lights_encountered'' = Some 0
     \<and> map_of st ''total_wait_time'' = Some 0"



text \<open>Node 1 with the edges to 3 and to 2, in this order, and the signal
  \<open>example_light\<close> on the edge from 1 to 2; node 4 has no edge at all.\<close>

definition signal_fork :: RoadNetwork where
  "signal_fork = \<lparr>graph = None,
     nodes = [(1, origin 1), (2, origin 2), (3, origin 3), (4, origin 4)],
     edges = [((1, 3), 1389), ((1, 2), 500)]\<rparr>"

definition signal_fork_finder :: AStarPathfinder where
  "signal_fork_finder = \<lparr>road_network = signal_fork, traffic_predictor = example_predictor\<rparr>"

text \<open>Where the loop of \<^verbatim>\<open>find_path\<close> leaves with the result \<open>r\<close>: on an empty heap, on
  popping the goal, or on an exception.\<close>

definition loop_exit ::
  "AStarPathfinder \<Rightarrow> int \<Rightarrow> search_state \<Rightarrow> (py_error + search_result) option \<Rightarrow> bool" where
  "loop_exit pf goal_id s r \<longleftrightarrow>
     (if open_list s = [] then r = Some (Inr ([], Infinity, stats s, priced s))
      else
        (let (current, rest) = heappop (open_list s)
         in if path_node_id current = goal_id then
              r = (case walk_back (parents s) (Some goal_id) [] of
                     None \<Rightarrow> None
                   | Some path \<Rightarrow> Some (Inr (rev path, Fin (g_cost current), stats s, priced s)))
            else path_node_id current \<notin> closed_set s \<and>
              (\<exists>e. r = Some (Inl e) \<and>
                 (case dict_add ''nodes_explored'' 1 (stats s) of
                    Inl e' \<Rightarrow> e' = e
                  | Inr stats' \<Rightarrow>
                      (case get_neighbors (road_network pf) (path_node_id current) of
                         Inl e' \<Rightarrow> e' = e
                       | Inr neighbors \<Rightarrow>
                           expand_neighbors pf goal_id current neighbors
                             (s\<lparr>open_list := rest,
                                closed_set := insert (path_node_id current) (closed_set s),
                                stats := stats'\<rparr>) = Inl e)))))"


text \<open>The sum of the static distances along a path; \<open>None\<close> when two consecutive nodes
  have no edge in the distance table.\<close>

fun path_distance :: "RoadNetwork \<Rightarrow> int list \<Rightarrow> real option" where
  "path_distance net [] = Some 0"
| "path_distance net [x] = Some 0"
| "path_distance net (x # y # rest) =
     (case get_edge_distance net x y of
        None \<Rightarrow> None
      | Some d \<Rightarrow> (case path_distance net (y # rest) of None \<Rightarrow> None | Some r \<Rightarrow> Some (d + r)))"

text \<open>The nodes that the reconstruction visits from \<open>n\<close>: \<open>n\<close>, its parent, and so on to
  a node without parent.\<close>

inductive back_chain :: "(int \<rightharpoonup> int) \<Rightarrow> int \<Rightarrow> int list \<Rightarrow> bool" for ps :: "int \<rightharpoonup> int" where
  root: "ps n = None \<Longrightarrow> back_chain ps n [n]"
| link: "ps n = Some p \<Longrightarrow> back_chain ps p xs \<Longrightarrow> back_chain ps n (n # xs)"

text \<open>The invariant of the loop for the costs: every recorded cost is at least the static
  distance of the path that the parents give, which runs through closed nodes, and every
  heap entry carries at least the recorded cost of its node.\<close>

definition cost_inv :: "AStarPathfinder \<Rightarrow> search_state \<Rightarrow> bool" where
  "cost_inv pf s \<longleftrightarrow>
     (\<forall>n g. g_costs s n = Some g \<longrightarrow>
        (\<exists>xs d. back_chain (parents s) n xs \<and> set (tl xs) \<subseteq> closed_set s
           \<and> path_distance (road_network pf) (rev xs) = Some d \<and> d \<le> g))
     \<and> (\<forall>e \<in> set (open_list s). \<exists>g. g_costs s (path_node_id e) = Some g \<and> g \<le> g_cost e)"

text \<open>An edge that the expansion follows: the target is among the neighbours of the
  source and the distance table has the edge.\<close>

definition usable_edge :: "AStarPathfinder \<Rightarrow> int \<Rightarrow> int \<Rightarrow> bool" where
  "usable_edge pf u v \<longleftrightarrow>
     (case get_neighbors (road_network pf) u of
        Inl e \<Rightarrow> False
      | Inr ns \<Rightarrow> v \<in> set ns \<and> get_edge_distance (road_network pf) u v \<noteq> None)"

inductive_set reachable :: "AStarPathfinder \<Rightarrow> int \<Rightarrow> int set"
  for pf :: AStarPathfinder and start_id :: int where
  start: "start_id \<in> reachable pf start_id"
| edge: "u \<in> reachable pf start_id \<Longrightarrow> usable_edge pf u v \<Longrightarrow> v \<in> reachable pf start_id"

text \<open>No registered signal has a cycle of zero, on which \<^verbatim>\<open>get_wait_time\<close> raises.\<close>

definition no_zero_cycle :: "TrafficLightPredictor \<Rightarrow> bool" where
  "no_zero_cycle p \<longleftrightarrow> (\<forall>l \<in> ran (traffic_lights p). cycle_time l \<noteq> 0)"

text \<open>\<^verbatim>\<open>get_neighbors\<close> answers for every node that can be reached (it always does
  when the network has no \<^verbatim>\<open>graph\<close>).\<close>

definition neighbors_known :: "AStarPathfinder \<Rightarrow> int \<Rightarrow> bool" where
  "neighbors_known pf start_id \<longleftrightarrow>
     (\<forall>u \<in> reachable pf start_id. \<exists>ns. get_neighbors (road_network pf) u = Inr ns)"

definition stats_shape :: "stats_dict \<Rightarrow> real \<Rightarrow> bool" where
  "stats_shape st k \<longleftrightarrow>
     (\<exists>a b. st = [(''nodes_explored'', k), (''traffic_lights_encountered'', a),
        (''total_wait_time'', b)])"

text \<open>The invariant of the loop for the exploration, and the one that holds while the
  neighbours of the node \<open>u\<close> are visited.\<close>

definition expanding_inv :: "AStarPathfinder \<Rightarrow> int \<Rightarrow> int set \<Rightarrow> search_state \<Rightarrow> bool" where
  "expanding_inv pf start_id finished s \<longleftrightarrow>
     finite (closed_set s)
     \<and> closed_set s \<subseteq> reachable pf start_id
     \<and> path_node_id ` set (open_list s) \<subseteq> reachable pf start_id
     \<and> dom (g_costs s) = closed_set s \<union> path_node_id ` set (open_list s)
     \<and> (\<forall>u \<in> finished. \<forall>v. usable_edge pf u v \<longrightarrow> v \<in> dom (g_costs s))
     \<and> start_id \<in> dom (g_costs s)
     \<and> stats_shape (stats s) (real (card (closed_set s)))"

definition explore_inv :: "AStarPathfinder \<Rightarrow> int \<Rightarrow> search_state \<Rightarrow> bool" where
  "explore_inv pf start_id s \<longleftrightarrow> expanding_inv pf start_id (closed_set s) s"

subsection \<open>Facts about the oracle\<close>

lemma py_mod_range:
  assumes "0 < b"
  shows "\<exists>r. py_mod a b = Inr r \<and> 0 \<le> r \<and> r < b"
proof -
  let ?q = "\<lfloor>a / b\<rfloor>"
  have "of_int ?q * b \<le> a" using assms by (rule floor_divide_lower)
  moreover have "a < (of_int ?q + 1) * b" using assms by (rule floor_divide_upper)
  ultimately have "0 \<le> a - b * of_int ?q \<and> a - b * of_int ?q < b"
    by (simp add: algebra_simps)
  with assms show ?thesis by (simp add: py_mod_def)
qed


lemma py_mod_position:
  "cycle_time l \<noteq> 0 \<Longrightarrow>
   py_mod (t - phase_start_time l) (cycle_time l) = Inr (cycle_position_of l t)"
  by (simp add: py_mod_def cycle_position_of_def)

lemma add_traffic_light_ok:
  assumes "0 < cycle" "0 \<le> green_ratio" "green_ratio \<le> 1"
    and "traffic_lights (add_traffic_light p a b cycle green_ratio u1 u2) (a, b) = Some l"
  shows "light_ok l"
proof -
  have "cycle * green_ratio \<le> cycle * 1" using assms(1,3) by (intro mult_left_mono) simp_all
  then show ?thesis
    using assms by (auto simp: add_traffic_light_def light_ok_def Let_def algebra_simps)
qed

lemma light_ok_wait:
  assumes "light_ok l" "traffic_lights p (a, b) = Some l"
  shows "\<exists>w. get_wait_time p a b t = Inr w \<and> 0 \<le> w"
proof -
  from assms(1) have c: "0 < cycle_time l" by (simp add: light_ok_def)
  from py_mod_range [OF c] obtain r where
    r: "py_mod (t - phase_start_time l) (cycle_time l) = Inr r" "0 \<le> r" "r < cycle_time l"
    by blast
  from assms(1) have red: "0 \<le> red_time l" by (simp add: light_ok_def)
  show ?thesis using assms(2) r red
    by (simp add: get_wait_time_def Let_def)
qed

subsection \<open>Evaluations of the example signals\<close>

lemma example_lights_ok: "lights_ok example_predictor"
  by (simp add: lights_ok_def example_predictor_def example_light_def light_ok_def)




lemma pos118: "cycle_position_of example_light 118 = 118"
  by (simp add: cycle_position_of_def example_light_def)

subsection \<open>Invariant rules for the two loops\<close>

lemma expand_neighbors_rule:
  assumes "expand_neighbors pf goal_id current ns s = Inr s'" and "J s"
    and "\<And>n a b. n \<in> set ns \<Longrightarrow> J a \<Longrightarrow> visit_neighbor pf goal_id current n a = Inr b \<Longrightarrow> J b"
  shows "J s'"
  using assms
proof (induction ns arbitrary: s)
  case Nil
  then show ?case by simp
next
  case (Cons n ns)
  from Cons.prems(1) obtain s1 where
    v: "visit_neighbor pf goal_id current n s = Inr s1"
    and e: "expand_neighbors pf goal_id current ns s1 = Inr s'"
    by (auto split: sum.splits)
  have "J s1" using Cons.prems(2) v by (rule Cons.prems(3) [of n, simplified])
  with e show ?case
    by (rule Cons.IH) (rule Cons.prems(3), simp_all)
qed

lemma search_loop_rule:
  assumes "I s"
    and stale: "\<And>s current rest.
      \<lbrakk>I s; open_list s \<noteq> []; heappop (open_list s) = (current, rest);
       path_node_id current \<noteq> goal_id; path_node_id current \<in> closed_set s\<rbrakk>
      \<Longrightarrow> I (s\<lparr>open_list := rest\<rparr>)"
    and expand: "\<And>s current rest stats' neighbors s'.
      \<lbrakk>I s; open_list s \<noteq> []; heappop (open_list s) = (current, rest);
       path_node_id current \<noteq> goal_id; path_node_id current \<notin> closed_set s;
       dict_add ''nodes_explored'' 1 (stats s) = Inr stats';
       get_neighbors (road_network pf) (path_node_id current) = Inr neighbors;
       expand_neighbors pf goal_id current neighbors
         (s\<lparr>open_list := rest,
            closed_set := insert (path_node_id current) (closed_set s),
            stats := stats'\<rparr>) = Inr s'\<rbrakk>
      \<Longrightarrow> I s'"
  shows "\<exists>s'. I s' \<and> loop_exit pf goal_id s' (search_loop pf goal_id s)"
  using assms
proof (induction pf goal_id s rule: search_loop.induct)
  case (1 pf goal_id s)
  note inv = "1.prems"(1) and stale = "1.prems"(2) and expand = "1.prems"(3)
  show ?case
  proof (cases "open_list s = []")
    case True
    then have "loop_exit pf goal_id s (search_loop pf goal_id s)"
      by (simp add: loop_exit_def search_loop.simps)
    with inv show ?thesis by blast
  next
    case ne: False
    obtain current rest where pop: "heappop (open_list s) = (current, rest)"
      by (cases "heappop (open_list s)")
    show ?thesis
    proof (cases "path_node_id current = goal_id")
      case True
      with ne pop have "loop_exit pf goal_id s (search_loop pf goal_id s)"
        by (simp add: loop_exit_def search_loop.simps)
      with inv show ?thesis by blast
    next
      case ng: False
      show ?thesis
      proof (cases "path_node_id current \<in> closed_set s")
        case True
        have eq: "search_loop pf goal_id s = search_loop pf goal_id (s\<lparr>open_list := rest\<rparr>)"
          using ne pop ng True by (subst search_loop.simps) simp
        have "I (s\<lparr>open_list := rest\<rparr>)" using inv ne pop ng True by (rule stale)
        from "1.IH"(1) [OF ne pop [symmetric] refl ng True this stale expand] eq
        show ?thesis by simp
      next
        case nc: False
        show ?thesis
        proof (cases "dict_add ''nodes_explored'' 1 (stats s)")
          case (Inl e)
          with ne pop ng nc have "loop_exit pf goal_id s (search_loop pf goal_id s)"
            by (simp add: loop_exit_def search_loop.simps)
          with inv show ?thesis by blast
        next
          case st: (Inr stats')
          show ?thesis
          proof (cases "get_neighbors (road_network pf) (path_node_id current)")
            case (Inl e)
            with ne pop ng nc st have "loop_exit pf goal_id s (search_loop pf goal_id s)"
              by (simp add: loop_exit_def search_loop.simps)
            with inv show ?thesis by blast
          next
            case nb: (Inr neighbors)
            let ?s0 = "s\<lparr>open_list := rest,
               closed_set := insert (path_node_id current) (closed_set s), stats := stats'\<rparr>"
            show ?thesis
            proof (cases "expand_neighbors pf goal_id current neighbors ?s0")
              case (Inl e)
              with ne pop ng nc st nb have "loop_exit pf goal_id s (search_loop pf goal_id s)"
                by (simp add: loop_exit_def search_loop.simps)
              with inv show ?thesis by blast
            next
              case ex: (Inr s')
              have eq: "search_loop pf goal_id s = search_loop pf goal_id s'"
                using ne pop ng nc st nb ex by (subst search_loop.simps) simp
              have "I s'" using inv ne pop ng nc st nb ex by (rule expand)
              from "1.IH"(2) [OF ne pop [symmetric] refl ng nc st nb ex this stale expand] eq
              show ?thesis by simp
            qed
          qed
        qed
      qed
    qed
  qed
qed

subsection \<open>The clock and the history of priced edges\<close>





subsection \<open>Recorded costs and static distances\<close>

lemma back_chain_hd: "back_chain ps n xs \<Longrightarrow> xs \<noteq> [] \<and> hd xs = n"
  by (induction rule: back_chain.induct) simp_all

lemma back_chain_agree:
  "back_chain ps n xs \<Longrightarrow> (\<forall>x \<in> set xs. ps' x = ps x) \<Longrightarrow> back_chain ps' n xs"
proof (induction rule: back_chain.induct)
  case (root n)
  then show ?case by (simp add: back_chain.root)
next
  case (link n p xs)
  then show ?case by (simp add: back_chain.link)
qed

lemma back_chain_walk:
  "back_chain ps n xs \<Longrightarrow> walk_back ps (Some n) acc = Some (acc @ xs)"
proof (induction arbitrary: acc rule: back_chain.induct)
  case (root n)
  have "walk_back ps (Some n) acc = walk_back ps None (acc @ [n])"
    using root by (subst walk_back.simps) simp
  also have "\<dots> = Some (acc @ [n])" by (subst walk_back.simps) simp
  finally show ?case .
next
  case (link n p xs)
  have "walk_back ps (Some n) acc = walk_back ps (Some p) (acc @ [n])"
    using link.hyps(1) by (subst walk_back.simps) simp
  also have "\<dots> = Some ((acc @ [n]) @ xs)" by (rule link.IH)
  finally show ?case by simp
qed

lemma path_distance_snoc:
  "path_distance net (xs @ [u]) = Some a \<Longrightarrow> get_edge_distance net u n = Some d \<Longrightarrow>
   path_distance net (xs @ [u, n]) = Some (a + d)"
proof (induction xs arbitrary: a)
  case Nil
  then show ?case by simp
next
  case (Cons x xs)
  obtain y rest where yr: "xs @ [u] = y # rest" by (cases "xs @ [u]") auto
  then have yr2: "xs @ [u, n] = y # (rest @ [n])" by (cases xs) auto
  from Cons.prems(1) yr obtain e r where
    e: "get_edge_distance net x y = Some e" and r: "path_distance net (xs @ [u]) = Some r"
    and a: "a = e + r"
    by (auto split: option.splits)
  from Cons.IH [OF r Cons.prems(2)] yr2
  have ih: "path_distance net (y # (rest @ [n])) = Some (r + d)" by simp
  have "path_distance net ((x # xs) @ [u, n]) = path_distance net (x # y # (rest @ [n]))"
    by (simp only: append_Cons yr2)
  also have "\<dots> = Some (a + d)" using e ih a by simp
  finally show ?case .
qed

lemma lights_ok_wait:
  assumes "lights_ok p" and "get_wait_time p a b t = Inr w"
  shows "0 \<le> w"
proof (cases "traffic_lights p (a, b)")
  case None
  with assms(2) show ?thesis by (simp add: get_wait_time_def)
next
  case (Some l)
  then have "l \<in> ran (traffic_lights p)" by (auto simp: ran_def)
  with assms(1) have "light_ok l" by (simp add: lights_ok_def)
  from light_ok_wait [OF this Some, of t] assms(2) show ?thesis by auto
qed

lemma average_speed_pos: "0 < average_speed"
  by (simp add: average_speed_def)

lemma set_heappush: "set (heappush heap item) = insert item (set heap)"
  by (metis heappush_mset set_mset_add_mset_insert set_mset_mset)

lemma set_heappop:
  "heap \<noteq> [] \<Longrightarrow> heappop heap = (x, rest) \<Longrightarrow> set heap = insert x (set rest)"
  by (metis heappop_mset set_mset_add_mset_insert set_mset_mset)

lemma visit_neighbor_cost:
  assumes v: "visit_neighbor pf goal_id current n s = Inr s'"
    and inv: "cost_inv pf s" and ok: "lights_ok (traffic_predictor pf)"
    and cl: "path_node_id current \<in> closed_set s"
  shows "cost_inv pf s'"
  using v
proof (cases rule: visit_neighbor_cases)
  case closed
  with inv show ?thesis by simp
next
  case no_edge
  with inv show ?thesis by simp
next
  case (keep d w st g g_old)
  with inv show ?thesis by (simp add: cost_inv_def)
next
  case (relax d w st g)
  let ?u = "path_node_id current"
  let ?g' = "g + (d + w * average_speed)"
  let ?ps' = "(parents s)(n \<mapsto> ?u)"
  let ?new = "PathNode n ?g' (heuristic pf n goal_id) (Some current)"
  have w0: "0 \<le> w" using ok relax(3) by (rule lights_ok_wait)
  have s'g: "g_costs s' = (g_costs s)(n \<mapsto> ?g')" and s'p: "parents s' = ?ps'"
    and s'c: "closed_set s' = closed_set s"
    and s'o: "open_list s' = heappush (open_list s) ?new"
    using relax(6) by simp_all
  from inv relax(4) obtain xu du where
    cu: "back_chain (parents s) ?u xu" and tu: "set (tl xu) \<subseteq> closed_set s"
    and pu: "path_distance (road_network pf) (rev xu) = Some du" and lu: "du \<le> g"
    unfolding cost_inv_def by blast
  from back_chain_hd [OF cu] have xu: "xu = ?u # tl xu" by (cases xu) auto
  with tu cl have su: "set xu \<subseteq> closed_set s" by (metis insert_subset list.simps(15))
  with relax(1) have nu: "n \<notin> set xu" by auto
  have part1: "\<exists>xs d'. back_chain ?ps' m xs \<and> set (tl xs) \<subseteq> closed_set s
           \<and> path_distance (road_network pf) (rev xs) = Some d' \<and> d' \<le> gm"
    if m: "((g_costs s)(n \<mapsto> ?g')) m = Some gm" for m gm
  proof (cases "m = n")
    case True
    with m have gm: "gm = ?g'" by simp
    have "back_chain ?ps' ?u xu" by (rule back_chain_agree [OF cu]) (use nu in auto)
    then have c: "back_chain ?ps' n (n # xu)" by (intro back_chain.link) simp_all
    have "rev xu = rev (tl xu) @ [?u]" by (subst xu) simp
    with pu have "path_distance (road_network pf) (rev (tl xu) @ [?u]) = Some du" by simp
    from path_distance_snoc [OF this relax(2)]
    have "path_distance (road_network pf) (rev (tl xu) @ [?u, n]) = Some (du + d)" .
    moreover have "rev (n # xu) = rev (tl xu) @ [?u, n]" by (subst xu) simp
    ultimately have p: "path_distance (road_network pf) (rev (n # xu)) = Some (du + d)" by simp
    have "0 \<le> w * average_speed" using w0 average_speed_pos by simp
    with lu gm have "du + d \<le> gm" by simp
    with c su p True show ?thesis by (intro exI [of _ "n # xu"] exI [of _ "du + d"]) simp
  next
    case False
    with m have "g_costs s m = Some gm" by simp
    with inv obtain xs d' where
      c: "back_chain (parents s) m xs" and t: "set (tl xs) \<subseteq> closed_set s"
      and p: "path_distance (road_network pf) (rev xs) = Some d'" and l: "d' \<le> gm"
      unfolding cost_inv_def by blast
    from back_chain_hd [OF c] have xs: "xs = m # tl xs" by (cases xs) auto
    have "n \<notin> set (tl xs)" using t relax(1) by auto
    with xs False have "n \<notin> set xs" by (metis set_ConsD)
    then have "back_chain ?ps' m xs" by (intro back_chain_agree [OF c]) auto
    with t p l show ?thesis by blast
  qed
  have part2: "\<exists>g0. ((g_costs s)(n \<mapsto> ?g')) (path_node_id e) = Some g0 \<and> g0 \<le> g_cost e"
    if e: "e \<in> insert ?new (set (open_list s))" for e
  proof (cases "path_node_id e = n")
    case True
    show ?thesis
    proof (cases "e = ?new")
      case True
      then show ?thesis by simp
    next
      case False
      with e have "e \<in> set (open_list s)" by simp
      with inv obtain g0 where g0: "g_costs s (path_node_id e) = Some g0" "g0 \<le> g_cost e"
        unfolding cost_inv_def by blast
      with relax(5) True have "?g' < g0" by simp
      with g0 True show ?thesis by simp
    qed
  next
    case False
    with e have "e \<in> set (open_list s)" by auto
    with inv obtain g0 where "g_costs s (path_node_id e) = Some g0" "g0 \<le> g_cost e"
      unfolding cost_inv_def by blast
    with False show ?thesis by simp
  qed
  show ?thesis
    unfolding cost_inv_def s'g s'p s'c s'o set_heappush
    using part1 part2 by blast
qed

lemma cost_inv_init: "cost_inv pf (init_state pf start_id goal_id start_time)"
proof -
  have "back_chain Map.empty start_id [start_id]" by (rule back_chain.root) simp
  then show ?thesis
    by (auto simp: cost_inv_def init_state_def set_heappush)
qed

lemma cost_inv_shrink:
  assumes "cost_inv pf s" and "set rest \<subseteq> set (open_list s)" and "closed_set s \<subseteq> C"
  shows "cost_inv pf (s\<lparr>open_list := rest, closed_set := C, stats := st\<rparr>)"
  using assms unfolding cost_inv_def by (simp add: subset_iff) blast

lemma search_loop_cost:
  assumes inv: "cost_inv pf s" and ok: "lights_ok (traffic_predictor pf)"
    and run: "search_loop pf goal_id s = Some (Inr (path, total_cost, st, h))"
    and ne: "path \<noteq> []"
  shows "\<exists>d c. path_distance (road_network pf) path = Some d \<and> total_cost = Fin c \<and> d \<le> c"
proof -
  have "\<exists>s'. cost_inv pf s' \<and> loop_exit pf goal_id s' (search_loop pf goal_id s)"
  proof (rule search_loop_rule [where I = "cost_inv pf"])
    show "cost_inv pf s" by (rule inv)
  next
    fix s current rest
    assume i: "cost_inv pf s" and o: "open_list s \<noteq> []"
      and p: "heappop (open_list s) = (current, rest)"
    from set_heappop [OF o p] have "set rest \<subseteq> set (open_list s)" by auto
    with i have "cost_inv pf (s\<lparr>open_list := rest, closed_set := closed_set s, stats := stats s\<rparr>)"
      by (intro cost_inv_shrink) simp_all
    then show "cost_inv pf (s\<lparr>open_list := rest\<rparr>)" by simp
  next
    fix s current rest stats' neighbors s'
    assume i: "cost_inv pf s" and o: "open_list s \<noteq> []"
      and p: "heappop (open_list s) = (current, rest)"
      and e: "expand_neighbors pf goal_id current neighbors
        (s\<lparr>open_list := rest,
           closed_set := insert (path_node_id current) (closed_set s), stats := stats'\<rparr>) = Inr s'"
    let ?s0 = "s\<lparr>open_list := rest,
        closed_set := insert (path_node_id current) (closed_set s), stats := stats'\<rparr>"
    from set_heappop [OF o p] have "set rest \<subseteq> set (open_list s)" by auto
    with i have "cost_inv pf ?s0" by (intro cost_inv_shrink) auto
    then have j: "cost_inv pf ?s0 \<and> path_node_id current \<in> closed_set ?s0" by simp
    have "cost_inv pf s' \<and> path_node_id current \<in> closed_set s'"
      using e j
    proof (rule expand_neighbors_rule)
      fix n a b
      assume a: "cost_inv pf a \<and> path_node_id current \<in> closed_set a"
        and v: "visit_neighbor pf goal_id current n a = Inr b"
      from a have "cost_inv pf b" by (intro visit_neighbor_cost [OF v _ ok]) simp_all
      moreover from visit_neighbor_frame [OF v] a have "path_node_id current \<in> closed_set b"
        by simp
      ultimately show "cost_inv pf b \<and> path_node_id current \<in> closed_set b" ..
    qed
    then show "cost_inv pf s'" ..
  qed
  then obtain s' where i: "cost_inv pf s'"
    and x: "loop_exit pf goal_id s' (Some (Inr (path, total_cost, st, h)))"
    using run by auto
  from x ne have o: "open_list s' \<noteq> []" by (auto simp: loop_exit_def)
  obtain current rest where p: "heappop (open_list s') = (current, rest)"
    by (cases "heappop (open_list s')")
  from x o p have g: "path_node_id current = goal_id"
    by (auto simp: loop_exit_def split: if_splits)
  from x o p g obtain ys where r: "walk_back (parents s') (Some goal_id) [] = Some ys"
    "path = rev ys" "total_cost = Fin (g_cost current)"
    by (auto simp: loop_exit_def split: option.splits)
  from set_heappop [OF o p] have "current \<in> set (open_list s')" by simp
  with i g obtain g0 where g0: "g_costs s' goal_id = Some g0" "g0 \<le> g_cost current"
    unfolding cost_inv_def by blast
  with i obtain xs d where c: "back_chain (parents s') goal_id xs"
    and d: "path_distance (road_network pf) (rev xs) = Some d" "d \<le> g0"
    unfolding cost_inv_def by blast
  from back_chain_walk [OF c, of "[]"] have "walk_back (parents s') (Some goal_id) [] = Some xs"
    by simp
  with r have "path = rev xs" "total_cost = Fin (g_cost current)" by simp_all
  with d g0 show ?thesis by auto
qed

subsection \<open>Exploration of the reachable nodes\<close>

lemma expanding_invD:
  assumes "expanding_inv pf start_id D s"
  shows "finite (closed_set s)" and "closed_set s \<subseteq> reachable pf start_id"
    and "path_node_id ` set (open_list s) \<subseteq> reachable pf start_id"
    and "dom (g_costs s) = closed_set s \<union> path_node_id ` set (open_list s)"
    and "\<And>u v. u \<in> D \<Longrightarrow> usable_edge pf u v \<Longrightarrow> v \<in> dom (g_costs s)"
    and "start_id \<in> dom (g_costs s)"
    and "stats_shape (stats s) (real (card (closed_set s)))"
  using assms unfolding expanding_inv_def by blast+

lemma expanding_invI:
  assumes "finite (closed_set s)" and "closed_set s \<subseteq> reachable pf start_id"
    and "path_node_id ` set (open_list s) \<subseteq> reachable pf start_id"
    and "dom (g_costs s) = closed_set s \<union> path_node_id ` set (open_list s)"
    and "\<And>u v. u \<in> D \<Longrightarrow> usable_edge pf u v \<Longrightarrow> v \<in> dom (g_costs s)"
    and "start_id \<in> dom (g_costs s)"
    and "stats_shape (stats s) (real (card (closed_set s)))"
  shows "expanding_inv pf start_id D s"
  using assms unfolding expanding_inv_def by blast

lemma get_wait_time_total:
  assumes "no_zero_cycle p"
  shows "\<exists>w. get_wait_time p a b t = Inr w"
proof (cases "traffic_lights p (a, b)")
  case None
  then show ?thesis by (simp add: get_wait_time_def)
next
  case (Some l)
  then have "l \<in> ran (traffic_lights p)" by (auto simp: ran_def)
  with assms have "cycle_time l \<noteq> 0" by (simp add: no_zero_cycle_def)
  with Some show ?thesis by (simp add: get_wait_time_def py_mod_def Let_def)
qed

lemma stats_shape_wait:
  assumes "stats_shape st k"
  shows "\<exists>st'. (if w > 0
            then (case dict_add ''traffic_lights_encountered'' 1 st of
                    Inl e \<Rightarrow> Inl e
                  | Inr d \<Rightarrow> dict_add ''total_wait_time'' w d)
            else Inr st) = Inr st' \<and> stats_shape st' k"
  using assms by (auto simp: stats_shape_def)

lemma stats_shape_wait_result:
  assumes "stats_shape st k"
    and "(if w > 0
            then (case dict_add ''traffic_lights_encountered'' 1 st of
                    Inl e \<Rightarrow> Inl e
                  | Inr d \<Rightarrow> dict_add ''total_wait_time'' w d)
            else Inr st) = Inr st'"
  shows "stats_shape st' k"
  using stats_shape_wait [OF assms(1), of w] assms(2) by auto

lemma stats_shape_explored:
  assumes "stats_shape st k"
  shows "\<exists>st'. dict_add ''nodes_explored'' 1 st = Inr st' \<and> stats_shape st' (k + 1)"
  using assms by (auto simp: stats_shape_def)

lemma visit_neighbor_total:
  assumes "no_zero_cycle (traffic_predictor pf)"
    and "g_costs s (path_node_id current) \<noteq> None"
    and "stats_shape (stats s) k"
  shows "\<exists>s'. visit_neighbor pf goal_id current n s = Inr s'"
proof -
  from get_wait_time_total [OF assms(1)] obtain w where
    w: "get_wait_time (traffic_predictor pf) (path_node_id current) n (current_time s) = Inr w"
    by blast
  from stats_shape_wait [OF assms(3), of w] obtain st' where
    st: "(if w > 0
            then (case dict_add ''traffic_lights_encountered'' 1 (stats s) of
                    Inl e \<Rightarrow> Inl e
                  | Inr d \<Rightarrow> dict_add ''total_wait_time'' w d)
            else Inr (stats s)) = Inr st'"
    by blast
  from assms(2) obtain g where g: "g_costs s (path_node_id current) = Some g" by auto
  show ?thesis
  proof (cases "get_edge_distance (road_network pf) (path_node_id current) n")
    case None
    then show ?thesis by (simp add: visit_neighbor_def get_edge_cost_def)
  next
    case (Some d)
    with w st g show ?thesis
      by (simp add: visit_neighbor_def get_edge_cost_def Let_def)
  qed
qed

lemma visit_neighbor_expanding:
  assumes v: "visit_neighbor pf goal_id current n s = Inr s'"
    and inv: "expanding_inv pf start_id D s"
    and u: "path_node_id current \<in> reachable pf start_id"
    and nb: "get_neighbors (road_network pf) (path_node_id current) = Inr ns" "n \<in> set ns"
  shows "expanding_inv pf start_id D s'"
  using v
proof (cases rule: visit_neighbor_cases)
  case closed
  with inv show ?thesis by simp
next
  case no_edge
  with inv show ?thesis by simp
next
  case (keep d w st g g_old)
  note i = expanding_invD [OF inv]
  have sh: "stats_shape st (real (card (closed_set s)))"
    using i(7) keep(8) by (rule stats_shape_wait_result)
  have eq: "closed_set s' = closed_set s" "open_list s' = open_list s"
    "g_costs s' = g_costs s" "stats s' = st"
    using keep(7) by simp_all
  show ?thesis
    by (rule expanding_invI) (use i sh in \<open>simp_all add: eq\<close>)
next
  case (relax d w st g)
  note i = expanding_invD [OF inv]
  have sh: "stats_shape st (real (card (closed_set s)))"
    using i(7) relax(7) by (rule stats_shape_wait_result)
  have "usable_edge pf (path_node_id current) n"
    using nb relax(2) by (simp add: usable_edge_def)
  with u have n: "n \<in> reachable pf start_id" by (rule reachable.edge)
  have eq: "closed_set s' = closed_set s"
    "path_node_id ` set (open_list s') = insert n (path_node_id ` set (open_list s))"
    "dom (g_costs s') = insert n (dom (g_costs s))" "stats s' = st"
    using relax(6) by (simp_all add: set_heappush)
  show ?thesis
  proof (rule expanding_invI)
    show "dom (g_costs s') = closed_set s' \<union> path_node_id ` set (open_list s')"
      unfolding eq i(4) by blast
    show "path_node_id ` set (open_list s') \<subseteq> reachable pf start_id"
      unfolding eq using n i(3) by blast
    show "v \<in> dom (g_costs s')" if "u \<in> D" "usable_edge pf u v" for u v
      unfolding eq using i(5) [OF that] by blast
    show "start_id \<in> dom (g_costs s')" unfolding eq using i(6) by blast
  qed (use i sh in \<open>simp_all add: eq\<close>)
qed

lemma visit_neighbor_dom:
  assumes "visit_neighbor pf goal_id current n s = Inr s'"
    and "closed_set s \<subseteq> dom (g_costs s)"
  shows "dom (g_costs s) \<subseteq> dom (g_costs s') \<and> closed_set s' \<subseteq> dom (g_costs s')
    \<and> (get_edge_distance (road_network pf) (path_node_id current) n \<noteq> None
         \<longrightarrow> n \<in> dom (g_costs s'))"
  using assms(1)
proof (cases rule: visit_neighbor_cases)
  case closed
  with assms(2) show ?thesis by auto
next
  case no_edge
  with assms(2) show ?thesis by auto
next
  case (relax d w st g)
  with assms(2) show ?thesis by auto
next
  case (keep d w st g g_old)
  with assms(2) show ?thesis by auto
qed

lemma expand_neighbors_dom:
  "expand_neighbors pf goal_id current ns s = Inr s' \<Longrightarrow> closed_set s \<subseteq> dom (g_costs s) \<Longrightarrow>
   dom (g_costs s) \<subseteq> dom (g_costs s')
   \<and> (\<forall>v \<in> set ns. get_edge_distance (road_network pf) (path_node_id current) v \<noteq> None
         \<longrightarrow> v \<in> dom (g_costs s'))"
proof (induction ns arbitrary: s)
  case Nil
  then show ?case by simp
next
  case (Cons n ns)
  from Cons.prems(1) obtain s1 where
    v: "visit_neighbor pf goal_id current n s = Inr s1"
    and e: "expand_neighbors pf goal_id current ns s1 = Inr s'"
    by (auto split: sum.splits)
  from visit_neighbor_dom [OF v Cons.prems(2)] have
    a: "dom (g_costs s) \<subseteq> dom (g_costs s1)" and b: "closed_set s1 \<subseteq> dom (g_costs s1)"
    and c: "get_edge_distance (road_network pf) (path_node_id current) n \<noteq> None
         \<longrightarrow> n \<in> dom (g_costs s1)"
    by simp_all
  from Cons.IH [OF e b] have
    d: "dom (g_costs s1) \<subseteq> dom (g_costs s')"
    and f: "\<forall>v \<in> set ns. get_edge_distance (road_network pf) (path_node_id current) v \<noteq> None
         \<longrightarrow> v \<in> dom (g_costs s')"
    by simp_all
  from a c d f show ?case by auto
qed

lemma expand_neighbors_total:
  assumes "no_zero_cycle (traffic_predictor pf)"
    and "path_node_id current \<in> reachable pf start_id"
    and "get_neighbors (road_network pf) (path_node_id current) = Inr ns0"
  shows "set ns \<subseteq> set ns0 \<Longrightarrow> expanding_inv pf start_id D s \<Longrightarrow>
    path_node_id current \<in> closed_set s \<Longrightarrow>
    \<exists>s'. expand_neighbors pf goal_id current ns s = Inr s' \<and> expanding_inv pf start_id D s'"
proof (induction ns arbitrary: s)
  case Nil
  then show ?case by simp
next
  case (Cons n ns)
  note i = expanding_invD [OF Cons.prems(2)]
  note dm = i(4) and sh = i(7)
  from dm Cons.prems(3) have "g_costs s (path_node_id current) \<noteq> None" by blast
  from visit_neighbor_total [OF assms(1) this sh] obtain s1 where
    v: "visit_neighbor pf goal_id current n s = Inr s1" by blast
  from Cons.prems(1) have n: "n \<in> set ns0" by simp
  have i1: "expanding_inv pf start_id D s1"
    using v Cons.prems(2) assms(2,3) n by (rule visit_neighbor_expanding)
  from visit_neighbor_frame [OF v] Cons.prems(3) have c1: "path_node_id current \<in> closed_set s1"
    by simp
  from Cons.prems(1) have "set ns \<subseteq> set ns0" by simp
  from Cons.IH [OF this i1 c1] v show ?case by simp
qed

lemma explore_inv_init: "explore_inv pf start_id (init_state pf start_id goal_id start_time)"
  by (auto simp: explore_inv_def expanding_inv_def init_state_def set_heappush
      reachable.start stats_shape_def init_stats_def)

lemma explore_inv_closed:
  assumes "explore_inv pf start_id s" and "open_list s = []"
  shows "closed_set s = reachable pf start_id"
proof
  from assms(1) have inv: "expanding_inv pf start_id (closed_set s) s"
    by (simp add: explore_inv_def)
  note i = expanding_invD [OF inv]
  from i(2) show "closed_set s \<subseteq> reachable pf start_id" .
  from i(4) assms(2) have dm: "dom (g_costs s) = closed_set s" by simp
  show "reachable pf start_id \<subseteq> closed_set s"
  proof
    fix x
    assume "x \<in> reachable pf start_id"
    then show "x \<in> closed_set s"
    proof (induction rule: reachable.induct)
      case start
      from i(6) dm show ?case by simp
    next
      case (edge u v)
      from i(5) [OF edge.IH edge.hyps(2)] dm show ?case by simp
    qed
  qed
qed

lemma explore_inv_stale:
  assumes inv: "explore_inv pf start_id s" and o: "open_list s \<noteq> []"
    and p: "heappop (open_list s) = (current, rest)"
    and c: "path_node_id current \<in> closed_set s"
  shows "explore_inv pf start_id (s\<lparr>open_list := rest\<rparr>)"
proof -
  from inv have "expanding_inv pf start_id (closed_set s) s" by (simp add: explore_inv_def)
  note i = expanding_invD [OF this]
  from set_heappop [OF o p] have
    st: "path_node_id ` set (open_list s) = insert (path_node_id current) (path_node_id ` set rest)"
    by simp
  have "expanding_inv pf start_id (closed_set s) (s\<lparr>open_list := rest\<rparr>)"
  proof (rule expanding_invI)
    show "dom (g_costs (s\<lparr>open_list := rest\<rparr>))
        = closed_set (s\<lparr>open_list := rest\<rparr>) \<union> path_node_id ` set (open_list (s\<lparr>open_list := rest\<rparr>))"
      using i(4) st c by auto
    show "path_node_id ` set (open_list (s\<lparr>open_list := rest\<rparr>)) \<subseteq> reachable pf start_id"
      using i(3) st by auto
    show "v \<in> dom (g_costs (s\<lparr>open_list := rest\<rparr>))"
      if "u \<in> closed_set s" "usable_edge pf u v" for u v
      using i(5) [OF that] by simp
  qed (use i in simp_all)
  then show ?thesis by (simp add: explore_inv_def)
qed

lemma explore_inv_open:
  assumes inv: "explore_inv pf start_id s" and o: "open_list s \<noteq> []"
    and p: "heappop (open_list s) = (current, rest)"
    and c: "path_node_id current \<notin> closed_set s"
    and d: "dict_add ''nodes_explored'' 1 (stats s) = Inr stats'"
  shows "expanding_inv pf start_id (closed_set s)
    (s\<lparr>open_list := rest, closed_set := insert (path_node_id current) (closed_set s),
       stats := stats'\<rparr>)"
    and "path_node_id current \<in> reachable pf start_id"
proof -
  from inv have "expanding_inv pf start_id (closed_set s) s" by (simp add: explore_inv_def)
  note i = expanding_invD [OF this]
  let ?s0 = "s\<lparr>open_list := rest, closed_set := insert (path_node_id current) (closed_set s),
       stats := stats'\<rparr>"
  from set_heappop [OF o p] have
    st: "path_node_id ` set (open_list s) = insert (path_node_id current) (path_node_id ` set rest)"
    by simp
  with i(3) show r: "path_node_id current \<in> reachable pf start_id" by simp
  from stats_shape_explored [OF i(7)] d
  have "stats_shape stats' (real (card (closed_set s)) + 1)" by auto
  moreover have "real (card (insert (path_node_id current) (closed_set s)))
      = real (card (closed_set s)) + 1"
    using i(1) c by simp
  ultimately have sh: "stats_shape (stats ?s0) (real (card (closed_set ?s0)))" by simp
  show "expanding_inv pf start_id (closed_set s) ?s0"
  proof (rule expanding_invI)
    show "dom (g_costs ?s0) = closed_set ?s0 \<union> path_node_id ` set (open_list ?s0)"
      using i(4) st by auto
    show "path_node_id ` set (open_list ?s0) \<subseteq> reachable pf start_id"
      using i(3) st by auto
    show "closed_set ?s0 \<subseteq> reachable pf start_id" using i(2) r by simp
    show "v \<in> dom (g_costs ?s0)" if "u \<in> closed_set s" "usable_edge pf u v" for u v
      using i(5) [OF that] by simp
    show "stats_shape (stats ?s0) (real (card (closed_set ?s0)))" by (rule sh)
  qed (use i in simp_all)
qed

lemma explore_inv_expanded:
  assumes inv: "explore_inv pf start_id s" and o: "open_list s \<noteq> []"
    and p: "heappop (open_list s) = (current, rest)"
    and c: "path_node_id current \<notin> closed_set s"
    and d: "dict_add ''nodes_explored'' 1 (stats s) = Inr stats'"
    and nb: "get_neighbors (road_network pf) (path_node_id current) = Inr neighbors"
    and e: "expand_neighbors pf goal_id current neighbors
         (s\<lparr>open_list := rest, closed_set := insert (path_node_id current) (closed_set s),
            stats := stats'\<rparr>) = Inr s'"
  shows "explore_inv pf start_id s'"
proof -
  let ?u = "path_node_id current"
  let ?s0 = "s\<lparr>open_list := rest, closed_set := insert ?u (closed_set s), stats := stats'\<rparr>"
  note op = explore_inv_open [OF inv o p c d]
  have i': "expanding_inv pf start_id (closed_set s) s'"
    using e op(1)
  proof (rule expand_neighbors_rule)
    fix n a b
    assume n: "n \<in> set neighbors" and a: "expanding_inv pf start_id (closed_set s) a"
      and v: "visit_neighbor pf goal_id current n a = Inr b"
    show "expanding_inv pf start_id (closed_set s) b"
      using v a op(2) nb n by (rule visit_neighbor_expanding)
  qed
  note i = expanding_invD [OF i']
  note i0 = expanding_invD [OF op(1)]
  from expand_neighbors_frame [OF e] have cl: "closed_set s' = insert ?u (closed_set s)" by simp
  from i0(4) have "closed_set ?s0 \<subseteq> dom (g_costs ?s0)" by blast
  from expand_neighbors_dom [OF e this] have
    dn: "\<And>v. v \<in> set neighbors \<Longrightarrow> get_edge_distance (road_network pf) ?u v \<noteq> None
         \<Longrightarrow> v \<in> dom (g_costs s')" by blast
  have "expanding_inv pf start_id (closed_set s') s'"
  proof (rule expanding_invI)
    show "finite (closed_set s')" by (rule i(1))
    show "closed_set s' \<subseteq> reachable pf start_id" by (rule i(2))
    show "path_node_id ` set (open_list s') \<subseteq> reachable pf start_id" by (rule i(3))
    show "dom (g_costs s') = closed_set s' \<union> path_node_id ` set (open_list s')" by (rule i(4))
    show "start_id \<in> dom (g_costs s')" by (rule i(6))
    show "stats_shape (stats s') (real (card (closed_set s')))" by (rule i(7))
    show "v \<in> dom (g_costs s')" if "u \<in> closed_set s'" "usable_edge pf u v" for u v
    proof (cases "u = ?u")
      case True
      from that(2) True nb have "v \<in> set neighbors"
        "get_edge_distance (road_network pf) ?u v \<noteq> None"
        by (simp_all add: usable_edge_def)
      then show ?thesis by (rule dn)
    next
      case False
      with that(1) cl have "u \<in> closed_set s" by simp
      then show ?thesis using that(2) by (rule i(5))
    qed
  qed
  then show ?thesis by (simp add: explore_inv_def)
qed

lemma search_loop_explore:
  assumes inv: "explore_inv pf start_id s"
    and nz: "no_zero_cycle (traffic_predictor pf)"
    and nk: "neighbors_known pf start_id"
    and ng: "goal_id \<notin> reachable pf start_id"
  shows "\<exists>st h. search_loop pf goal_id s = Some (Inr ([], Infinity, st, h))
    \<and> map_of st ''nodes_explored'' = Some (real (card (reachable pf start_id)))"
proof -
  have "\<exists>s'. explore_inv pf start_id s' \<and> loop_exit pf goal_id s' (search_loop pf goal_id s)"
    using inv
  proof (rule search_loop_rule [where I = "explore_inv pf start_id"])
    fix s current rest
    assume "explore_inv pf start_id s" "open_list s \<noteq> []"
      "heappop (open_list s) = (current, rest)" "path_node_id current \<in> closed_set s"
    then show "explore_inv pf start_id (s\<lparr>open_list := rest\<rparr>)" by (rule explore_inv_stale)
  next
    fix s current rest stats' neighbors s'
    assume "explore_inv pf start_id s" "open_list s \<noteq> []"
      "heappop (open_list s) = (current, rest)" "path_node_id current \<notin> closed_set s"
      "dict_add ''nodes_explored'' 1 (stats s) = Inr stats'"
      "get_neighbors (road_network pf) (path_node_id current) = Inr neighbors"
      "expand_neighbors pf goal_id current neighbors
         (s\<lparr>open_list := rest, closed_set := insert (path_node_id current) (closed_set s),
            stats := stats'\<rparr>) = Inr s'"
    then show "explore_inv pf start_id s'" by (rule explore_inv_expanded)
  qed
  then obtain s' where i: "explore_inv pf start_id s'"
    and x: "loop_exit pf goal_id s' (search_loop pf goal_id s)" by blast
  from i have i': "expanding_inv pf start_id (closed_set s') s'" by (simp add: explore_inv_def)
  note d = expanding_invD [OF i']
  show ?thesis
  proof (cases "open_list s' = []")
    case True
    with x have r: "search_loop pf goal_id s = Some (Inr ([], Infinity, stats s', priced s'))"
      by (simp add: loop_exit_def)
    from explore_inv_closed [OF i True] d(7)
    have "map_of (stats s') ''nodes_explored'' = Some (real (card (reachable pf start_id)))"
      by (auto simp: stats_shape_def)
    with r show ?thesis by blast
  next
    case o: False
    obtain current rest where p: "heappop (open_list s') = (current, rest)"
      by (cases "heappop (open_list s')")
    from set_heappop [OF o p] d(3) have cr: "path_node_id current \<in> reachable pf start_id"
      by auto
    with ng have g: "path_node_id current \<noteq> goal_id" by auto
    from x o p g have c: "path_node_id current \<notin> closed_set s'"
      by (simp add: loop_exit_def)
    from stats_shape_explored [OF d(7)] obtain stats' where
      da: "dict_add ''nodes_explored'' 1 (stats s') = Inr stats'" by blast
    from nk cr obtain neighbors where
      nb: "get_neighbors (road_network pf) (path_node_id current) = Inr neighbors"
      unfolding neighbors_known_def by blast
    note op = explore_inv_open [OF i o p c da]
    have "\<exists>b. expand_neighbors pf goal_id current neighbors
         (s'\<lparr>open_list := rest, closed_set := insert (path_node_id current) (closed_set s'),
            stats := stats'\<rparr>) = Inr b \<and> expanding_inv pf start_id (closed_set s') b"
      using nz op(2) nb _ op(1) by (rule expand_neighbors_total) simp_all
    with x o p g da nb have False by (auto simp: loop_exit_def)
    then show ?thesis ..
  qed
qed

subsection \<open>Evaluating the examples\<close>

lemmas eval_defs = find_path_def find_path_traced_def has_node_def init_state_def
  heappush_def heappop_def siftdown_def siftup_def Let_def path_node_lt_def f_cost_def
  get_neighbors_def get_edge_cost_def get_edge_distance_def get_wait_time_def
  visit_neighbor_def init_stats_def heuristic_def get_node_def origin_def
  init_predictor_def search_loop.simps siftdown_loop.simps siftup_loop.simps walk_back.simps

text \<open>The first scenario of section 8 of the specification.\<close>

lemma plain_finder_run:
  "find_path plain_finder 1 2 0 =
     Some (Inr ([1, 2], Fin 1000,
       [(''nodes_explored'', 1), (''traffic_lights_encountered'', 0), (''total_wait_time'', 0)]))"
  by (simp add: eval_defs plain_finder_def two_nodes_def)

lemma signal_fork_run:
  "find_path_traced signal_fork_finder 1 4 0 =
     Some (Inr ([], Infinity,
       [(''nodes_explored'', 3), (''traffic_lights_encountered'', 0), (''total_wait_time'', 0)],
       [(1, 3, 0, 1389), (1, 2, 100, 500)]))"
  by (simp add: eval_defs signal_fork_finder_def signal_fork_def example_predictor_def
      example_light_def py_mod_def average_speed_def)


lemma signal_finder_run:
  "find_path signal_finder 1 2 0 =
     Some (Inr ([1, 2], Fin (1000 + 60 * average_speed),
       [(''nodes_explored'', 1), (''traffic_lights_encountered'', 1), (''total_wait_time'', 60)]))"
  by (simp add: eval_defs signal_finder_def two_nodes_def example_predictor_def
      example_light_def py_mod_def)

lemma signal_fork_edges:
  "usable_edge signal_fork_finder u v \<longleftrightarrow> u = 1 \<and> (v = 2 \<or> v = 3)"
  by (auto simp: usable_edge_def get_neighbors_def get_edge_distance_def
      signal_fork_finder_def signal_fork_def)

lemma signal_fork_reachable: "reachable signal_fork_finder 1 = {1, 2, 3}"
proof
  show "reachable signal_fork_finder 1 \<subseteq> {1, 2, 3}"
  proof
    fix x
    assume "x \<in> reachable signal_fork_finder 1"
    then show "x \<in> {1, 2, 3}"
      by (induction rule: reachable.induct) (auto simp: signal_fork_edges)
  qed
next
  have "(1::int) \<in> reachable signal_fork_finder 1" by (rule reachable.start)
  moreover from this have "2 \<in> reachable signal_fork_finder 1"
    by (rule reachable.edge) (simp add: signal_fork_edges)
  moreover from calculation(1) have "3 \<in> reachable signal_fork_finder 1"
    by (rule reachable.edge) (simp add: signal_fork_edges)
  ultimately show "{1, 2, 3} \<subseteq> reachable signal_fork_finder 1" by simp
qed

lemma signal_fork_known: "neighbors_known signal_fork_finder 1"
  by (simp add: neighbors_known_def get_neighbors_def signal_fork_finder_def signal_fork_def)

lemma example_no_zero_cycle: "no_zero_cycle example_predictor"
  by (simp add: no_zero_cycle_def example_predictor_def example_light_def)

subsection \<open>Claims about the signal oracle\<close>

text \<open>
  Claim C5. When every registered signal has a positive cycle and a green duration between
  0 and the cycle (the red duration being the rest), \<^verbatim>\<open>get_wait_time\<close> returns a value
  that is at least 0, for every directed edge and every query time; and for an edge with no
  registered signal it returns exactly 0.
\<close>

theorem get_wait_time_nonneg:
  "(lights_ok p \<longrightarrow> (\<exists>w. get_wait_time p a b t = Inr w \<and> 0 \<le> w))
   \<and> (traffic_lights p (a, b) = None \<longrightarrow> get_wait_time p a b t = Inr 0)"
proof (intro conjI impI)
  assume ok: "lights_ok p"
  show "\<exists>w. get_wait_time p a b t = Inr w \<and> 0 \<le> w"
  proof (cases "traffic_lights p (a, b)")
    case None
    then show ?thesis by (simp add: get_wait_time_def)
  next
    case (Some l)
    then have "l \<in> ran (traffic_lights p)" by (auto simp: ran_def)
    with ok have "light_ok l" by (simp add: lights_ok_def)
    then show ?thesis using Some by (rule light_ok_wait)
  qed
next
  assume "traffic_lights p (a, b) = None"
  then show "get_wait_time p a b t = Inr 0" by (simp add: get_wait_time_def)
qed

theorem get_wait_time_nonneg_witness:
  "lights_ok example_predictor
   \<and> (\<exists>w. get_wait_time example_predictor 1 2 30 = Inr w \<and> 0 \<le> w)
   \<and> traffic_lights example_predictor (2, 1) = None
   \<and> get_wait_time example_predictor 2 1 30 = Inr 0"
proof -
  have n: "traffic_lights example_predictor (2, 1) = None"
    by (simp add: example_predictor_def)
  show ?thesis
    using example_lights_ok n
      get_wait_time_nonneg [of example_predictor 1 2 30]
      get_wait_time_nonneg [of example_predictor 2 1 30]
    by blast
qed





text \<open>
  Claim C10. For a signal whose current phase is red, every position in the cycle from the
  red duration on gives a wait of 0, also in the last 5 seconds before the cycle ends: the
  5-second surcharge belongs to the branch for a current phase of green only.
\<close>

theorem red_phase_green_part_no_wait:
  assumes "traffic_lights p (a, b) = Some l" and "current_phase l = ''red''"
    and "cycle_time l \<noteq> 0" and "red_time l \<le> cycle_position_of l t"
  shows "get_wait_time p a b t = Inr 0"
  using assms py_mod_position [OF assms(3), of t]
  by (simp add: get_wait_time_def)

theorem red_phase_green_part_no_wait_witness:
  "traffic_lights example_predictor (1, 2) = Some example_light
   \<and> current_phase example_light = ''red''
   \<and> cycle_time example_light \<noteq> 0
   \<and> red_time example_light \<le> cycle_position_of example_light 118
   \<and> cycle_time example_light - cycle_position_of example_light 118 \<le> 5
   \<and> get_wait_time example_predictor 1 2 118 = Inr 0"
proof -
  have a: "traffic_lights example_predictor (1, 2) = Some example_light"
    by (simp add: example_predictor_def)
  have b: "current_phase example_light = ''red''" by (simp add: example_light_def)
  have c: "cycle_time example_light \<noteq> 0" by (simp add: example_light_def)
  have d: "red_time example_light \<le> cycle_position_of example_light 118"
    by (simp add: pos118) (simp add: example_light_def)
  have e: "cycle_time example_light - cycle_position_of example_light 118 \<le> 5"
    by (simp add: pos118) (simp add: example_light_def)
  show ?thesis using a b c d e red_phase_green_part_no_wait [OF a b c d] by simp
qed

subsection \<open>Claims about the early returns of \<^verbatim>\<open>find_path\<close>\<close>

text \<open>
  Claim C2, as amended. For every node \<open>n\<close> of the graph and every start time,
  \<^verbatim>\<open>find_path(n, n, t)\<close> returns the one-node path, the cost 0 and the empty statistics
  dictionary: none of the three counts is present in it, and each reads as 0 through
  \<^verbatim>\<open>stats.get(key, 0)\<close>.
\<close>

theorem find_path_trivial:
  assumes "has_node (road_network pf) n"
  shows "find_path pf n n t = Some (Inr ([n], Fin 0, []))
    \<and> stats_get [] ''nodes_explored'' = 0
    \<and> stats_get [] ''traffic_lights_encountered'' = 0
    \<and> stats_get [] ''total_wait_time'' = 0"
  by (simp add: find_path_def find_path_traced_def stats_get_def)

theorem find_path_trivial_witness:
  "has_node (road_network plain_finder) 1
   \<and> find_path plain_finder 1 1 0 = Some (Inr ([1], Fin 0, []))"
proof -
  have h: "has_node (road_network plain_finder) 1"
    by (simp add: has_node_def plain_finder_def two_nodes_def)
  from h find_path_trivial [OF h, of 0] show ?thesis by simp
qed

text \<open>The claim as stated asks for statistics whose three counts are zero; the dictionary
  returned for node 1 of the two-node network has no counts.\<close>

theorem find_path_trivial_counterexample:
  "has_node (road_network plain_finder) 1
   \<and> find_path plain_finder 1 1 0 = Some (Inr ([1], Fin 0, []))
   \<and> \<not> zero_counts []
   \<and> find_path plain_finder 1 1 0 \<noteq> Some (Inr ([1], Fin 0, init_stats))"
  by (simp add: find_path_def find_path_traced_def has_node_def plain_finder_def two_nodes_def
      zero_counts_def init_stats_def)

text \<open>
  Claim C3, as amended. For every call \<^verbatim>\<open>find_path(start, goal, t)\<close> with different
  \<open>start\<close> and \<open>goal\<close> of which one is absent from the graph, the call returns (no
  exception) the empty path, the cost infinity and the empty statistics dictionary.
\<close>

theorem find_path_invalid_endpoint:
  assumes "start_id \<noteq> goal_id"
    and "\<not> has_node (road_network pf) start_id \<or> \<not> has_node (road_network pf) goal_id"
  shows "find_path pf start_id goal_id t = Some (Inr ([], Infinity, []))"
  using assms by (simp add: find_path_def find_path_traced_def)

theorem find_path_invalid_endpoint_witness:
  "(7::int) \<noteq> 1 \<and> \<not> has_node (road_network plain_finder) 7
   \<and> find_path plain_finder 7 1 0 = Some (Inr ([], Infinity, []))"
proof -
  have a: "(7::int) \<noteq> 1" by simp
  have b: "\<not> has_node (road_network plain_finder) 7"
    by (simp add: has_node_def plain_finder_def two_nodes_def)
  from b have c: "\<not> has_node (road_network plain_finder) 7
      \<or> \<not> has_node (road_network plain_finder) 1" by simp
  from a b find_path_invalid_endpoint [OF a c, of 0] show ?thesis by simp
qed

text \<open>The claim as stated covers equal endpoints too; for the absent node 7 as both start
  and goal the result is a one-node path of cost 0.\<close>

theorem find_path_invalid_endpoint_counterexample:
  "\<not> has_node (road_network plain_finder) 7
   \<and> find_path plain_finder 7 7 0 = Some (Inr ([7], Fin 0, []))
   \<and> find_path plain_finder 7 7 0 \<noteq> Some (Inr ([], Infinity, []))"
  by (simp add: find_path_def find_path_traced_def has_node_def plain_finder_def two_nodes_def)

text \<open>
  Claim C9. For every node id \<open>n\<close>, in the graph or not, and every start time,
  \<^verbatim>\<open>find_path(n, n, t)\<close> returns the path \<open>[n]\<close>, the cost 0 and the empty dictionary: the
  test for equal endpoints comes before the test that the nodes exist.
\<close>

theorem find_path_same_node:
  "find_path pf n n t = Some (Inr ([n], Fin 0, []))"
  by (simp add: find_path_def find_path_traced_def)

subsection \<open>Claim about the simulated clock\<close>



subsection \<open>Claim about the returned cost\<close>

text \<open>
  Claim C1. When every registered signal satisfies the signal invariant (so that no wait
  time is negative), every non-empty path that \<^verbatim>\<open>find_path\<close> returns has a static
  distance, the sum of the edge distances along it, and the returned total cost is finite
  and at least that sum.
\<close>

theorem returned_cost_covers_static_distance:
  assumes "lights_ok (traffic_predictor pf)"
    and "find_path pf start_id goal_id start_time = Some (Inr (path, total_cost, st))"
    and "path \<noteq> []"
  shows "\<exists>d c. path_distance (road_network pf) path = Some d \<and> total_cost = Fin c \<and> d \<le> c"
proof (cases "start_id = goal_id")
  case True
  with assms(2) have "path = [start_id]" "total_cost = Fin 0"
    by (auto simp: find_path_def find_path_traced_def)
  then show ?thesis by simp
next
  case False
  show ?thesis
  proof (cases "\<not> has_node (road_network pf) start_id \<or> \<not> has_node (road_network pf) goal_id")
    case True
    with False assms(2) have "path = []" by (auto simp: find_path_def find_path_traced_def)
    with assms(3) show ?thesis by simp
  next
    case valid: False
    from assms(2) obtain r where
      r: "find_path_traced pf start_id goal_id start_time = Some r"
      and m: "map_sum id (\<lambda>(path, total_cost, st, history). (path, total_cost, st)) r
          = Inr (path, total_cost, st)"
      by (auto simp: find_path_def)
    from m obtain h where "r = Inr (path, total_cost, st, h)"
      by (cases r) auto
    with r False valid have
      "search_loop pf goal_id (init_state pf start_id goal_id start_time)
         = Some (Inr (path, total_cost, st, h))"
      by (simp add: find_path_traced_def)
    with cost_inv_init assms(1) show ?thesis using assms(3) by (rule search_loop_cost)
  qed
qed

theorem returned_cost_covers_static_distance_witness:
  "lights_ok (traffic_predictor signal_finder)
   \<and> find_path signal_finder 1 2 0 =
     Some (Inr ([1, 2], Fin (1000 + 60 * average_speed),
       [(''nodes_explored'', 1), (''traffic_lights_encountered'', 1), (''total_wait_time'', 60)]))
   \<and> path_distance (road_network signal_finder) [1, 2] = Some 1000
   \<and> (\<exists>d c. path_distance (road_network signal_finder) [1, 2] = Some d
         \<and> Fin (1000 + 60 * average_speed) = Fin c \<and> d \<le> c)"
proof -
  have a: "lights_ok (traffic_predictor signal_finder)"
    using example_lights_ok by (simp add: signal_finder_def)
  have b: "[1, 2] \<noteq> ([]::int list)" by simp
  have c: "path_distance (road_network signal_finder) [1, 2] = Some 1000"
    by (simp add: signal_finder_def two_nodes_def get_edge_distance_def)
  from a signal_finder_run c
    returned_cost_covers_static_distance [OF a signal_finder_run b]
  show ?thesis by simp
qed

subsection \<open>Claim about an unreachable goal\<close>

text \<open>
  Claim C4. For a start and a goal that are nodes of the graph, with the goal not reachable
  from the start along edges that the expansion follows, \<^verbatim>\<open>find_path\<close> returns the empty
  path, the cost infinity and statistics in which \<^verbatim>\<open>nodes_explored\<close> is the number of
  nodes reachable from the start (the start included). The collaborators are taken to answer:
  no registered signal has a zero cycle, and \<^verbatim>\<open>get_neighbors\<close> knows every reachable
  node.
\<close>

theorem unreachable_goal_explores_reachable_set:
  assumes "has_node (road_network pf) start_id" and "has_node (road_network pf) goal_id"
    and "goal_id \<notin> reachable pf start_id"
    and "no_zero_cycle (traffic_predictor pf)" and "neighbors_known pf start_id"
  shows "\<exists>st. find_path pf start_id goal_id start_time = Some (Inr ([], Infinity, st))
    \<and> map_of st ''nodes_explored'' = Some (real (card (reachable pf start_id)))"
proof -
  from assms(3) have ne: "start_id \<noteq> goal_id" using reachable.start by blast
  from search_loop_explore [OF explore_inv_init assms(4,5,3)] obtain st h where
    "search_loop pf goal_id (init_state pf start_id goal_id start_time)
       = Some (Inr ([], Infinity, st, h))"
    and n: "map_of st ''nodes_explored'' = Some (real (card (reachable pf start_id)))"
    by blast
  with ne assms(1,2) have "find_path pf start_id goal_id start_time = Some (Inr ([], Infinity, st))"
    by (simp add: find_path_def find_path_traced_def)
  with n show ?thesis by blast
qed

theorem unreachable_goal_explores_reachable_set_witness:
  "has_node (road_network signal_fork_finder) 1 \<and> has_node (road_network signal_fork_finder) 4
   \<and> 4 \<notin> reachable signal_fork_finder 1
   \<and> no_zero_cycle (traffic_predictor signal_fork_finder)
   \<and> neighbors_known signal_fork_finder 1
   \<and> card (reachable signal_fork_finder 1) = 3
   \<and> find_path signal_fork_finder 1 4 0 =
       Some (Inr ([], Infinity,
         [(''nodes_explored'', 3), (''traffic_lights_encountered'', 0), (''total_wait_time'', 0)]))
   \<and> (\<exists>st. find_path signal_fork_finder 1 4 0 = Some (Inr ([], Infinity, st))
         \<and> map_of st ''nodes_explored'' = Some (real (card (reachable signal_fork_finder 1))))"
proof -
  have a: "has_node (road_network signal_fork_finder) 1"
    and b: "has_node (road_network signal_fork_finder) 4"
    by (simp_all add: has_node_def signal_fork_finder_def signal_fork_def)
  have c: "4 \<notin> reachable signal_fork_finder 1" by (simp add: signal_fork_reachable)
  have d: "no_zero_cycle (traffic_predictor signal_fork_finder)"
    using example_no_zero_cycle by (simp add: signal_fork_finder_def)
  have e: "card (reachable signal_fork_finder 1) = 3" by (simp add: signal_fork_reachable)
  have f: "find_path signal_fork_finder 1 4 0 =
       Some (Inr ([], Infinity,
         [(''nodes_explored'', 3), (''traffic_lights_encountered'', 0), (''total_wait_time'', 0)]))"
    using signal_fork_run by (simp add: find_path_def)
  from a b c d signal_fork_known e f
    unreachable_goal_explores_reachable_set [OF a b c d signal_fork_known, of 0]
  show ?thesis by blast
qed

end
